theory Spec2Isabelle
  imports Complex_Main "HOL-Library.Word" "HOL-Library.Log_Nat" "HOL-Library.Multiset"
begin

unbundle bit_operations_syntax

section \<open>The energy report program: model\<close>

text \<open>
  The program under verification is \<^verbatim>\<open>windows_report.cpp\<close>: a seeded generator, a
  simulator of one day of energy use, and the WinAPI paint code that lays out and draws
  the report. This first part holds the embedding of the source; the second part the
  lemmas; the third part the theorems that settle the claims.
\<close>

subsection \<open>Double precision arithmetic\<close>

text \<open>
  A finite \<^verbatim>\<open>double\<close> is a dyadic rational, so the type of doubles is \<^typ>\<open>rat\<close> and
  every operation of the source is the exact operation followed by the rounding of
  IEEE-754 binary64 in its default mode (to nearest, ties to even): \<open>rne\<close>. The exponent
  range is not modelled (no value of the program leaves it), and neither are NaN and the
  infinities (no operation of the program produces them from finite operands: the only
  divisors are non-zero constants, sums that are shown positive, and the running maximum
  of the bar chart, which starts at 1).

  \<open>ilog2 x\<close> is the binary exponent of a positive rational, \<open>\<lfloor>log\<^sub>2 x\<rfloor>\<close>, computed from
  the bit lengths of numerator and denominator.
\<close>

type_synonym double = rat

definition pow2 :: "int \<Rightarrow> rat" where
  "pow2 e = (if 0 \<le> e then 2 ^ nat e else 1 / 2 ^ nat (- e))"

definition ilog2 :: "rat \<Rightarrow> int" where
  "ilog2 x = (let (p, q) = quotient_of x; d = bitlen p - bitlen q
              in if pow2 d \<le> x then d else d - 1)"

definition round_half_even :: "rat \<Rightarrow> int" where
  "round_half_even y =
     (let f = \<lfloor>y\<rfloor>; r = y - of_int f
      in if r < 1 / 2 then f else if 1 / 2 < r then f + 1
         else if even f then f else f + 1)"

definition rne :: "rat \<Rightarrow> double" where
  "rne x = (if x = 0 then 0
            else let e = ilog2 \<bar>x\<bar> - 52
                 in of_int (round_half_even (x / pow2 e)) * pow2 e)"

text \<open>The values a double can hold: a significand of at most 53 bits times a power of two.\<close>

definition repr :: "rat \<Rightarrow> bool" where
  "repr x \<longleftrightarrow> (\<exists>m e. \<bar>m\<bar> \<le> 2 ^ 53 \<and> x = of_int m * pow2 e)"

definition dadd :: "double \<Rightarrow> double \<Rightarrow> double" where
  "dadd a b = rne (a + b)"

definition dsub :: "double \<Rightarrow> double \<Rightarrow> double" where
  "dsub a b = rne (a - b)"

definition dmul :: "double \<Rightarrow> double \<Rightarrow> double" where
  "dmul a b = rne (a * b)"

definition ddiv :: "double \<Rightarrow> double \<Rightarrow> double" where
  "ddiv a b = rne (a / b)"

text \<open>
  A decimal literal of the source denotes the double nearest to it. Literals that are
  binary fractions (\<^verbatim>\<open>6.5\<close>, \<^verbatim>\<open>16.0\<close>, \<^verbatim>\<open>0.5\<close>, \<^verbatim>\<open>0.75\<close>) denote themselves and are
  written without \<open>dlit\<close>.
\<close>

definition dlit :: "rat \<Rightarrow> double" where
  "dlit q = rne q"

text \<open>Conversions: \<^verbatim>\<open>static_cast<double>\<close> of an integer, and \<^verbatim>\<open>(int)\<close> of a double,
  which truncates towards zero.\<close>

definition int_to_double :: "int \<Rightarrow> double" where
  "int_to_double i = rne (of_int i)"

definition u64_to_double :: "64 word \<Rightarrow> double" where
  "u64_to_double w = rne (of_int (uint w))"

definition double_to_int :: "double \<Rightarrow> int" where
  "double_to_int x = (if 0 \<le> x then \<lfloor>x\<rfloor> else \<lceil>x\<rceil>)"

subsection \<open>The seeded generator (class SeededRNG)\<close>

text \<open>
  \<^verbatim>\<open>uint64_t\<close> is \<^typ>\<open>64 word\<close>: multiplication and addition wrap around. The
  constructor masks the seed with \<^verbatim>\<open>(1ULL << 64) - 1\<close>; the shift by the full width is
  read as it folds in 64-bit arithmetic (to 0, so that the mask is all ones and the
  seed is kept), which is what the comment of the source (the generator of the JS and
  Swift versions) intends.
\<close>

record SeededRNG =
  state :: "64 word"

definition SeededRNG_new :: "64 word \<Rightarrow> SeededRNG" where
  "SeededRNG_new seed = \<lparr>state = seed AND (push_bit 64 1 - 1)\<rparr>"

definition rng_next :: "SeededRNG \<Rightarrow> 64 word \<times> SeededRNG" where
  "rng_next rng =
     (let a = 6364136223846793005; c = 1;
          s = state rng * a + c
      in (s, rng\<lparr>state := s\<rparr>))"

definition nextDouble01 :: "SeededRNG \<Rightarrow> double \<times> SeededRNG" where
  "nextDouble01 rng =
     (let (x, rng') = rng_next rng;
          v = drop_bit 11 x
      in (ddiv (u64_to_double v) (u64_to_double (push_bit 53 1)), rng'))"

text \<open>The first \<open>n\<close> results of successive calls of \<^verbatim>\<open>next()\<close> on one generator.\<close>

fun next_outputs :: "nat \<Rightarrow> SeededRNG \<Rightarrow> 64 word list" where
  "next_outputs 0 rng = []"
| "next_outputs (Suc n) rng = (let (x, rng') = rng_next rng in x # next_outputs n rng')"

text \<open>
  The reference sequence of the specification, in its words: the recurrence
  \<open>x \<mapsto> x * A + C\<close> iterated on natural numbers, reduced modulo \<open>2\<^sup>6\<^sup>4\<close> at every step.
\<close>

definition lcg_recurrence :: "nat \<Rightarrow> nat" where
  "lcg_recurrence x = (x * 6364136223846793005 + 1) mod 2 ^ 64"

definition reference_sequence :: "nat \<Rightarrow> nat \<Rightarrow> nat list" where
  "reference_sequence s0 n = map (\<lambda>k. (lcg_recurrence ^^ Suc k) s0) [0..<n]"

subsection \<open>The data of the report\<close>

text \<open>
  A \<^verbatim>\<open>std::string\<close> is a list of bytes; the literals of the source hold Czech text, whose
  bytes (UTF-8, as the file is stored) are written out where they are not ASCII. A
  \<^verbatim>\<open>std::wstring\<close> is a list of 16-bit code units; \<open>wide\<close> is a wide literal of ASCII
  characters.
\<close>

type_synonym wstring = "16 word list"

definition wide :: "string \<Rightarrow> wstring" where
  "wide s = map of_char s"

record SYSTEMTIME =
  wYear :: "16 word"
  wMonth :: "16 word"
  wDayOfWeek :: "16 word"
  wDay :: "16 word"
  wHour :: "16 word"
  wMinute :: "16 word"
  wSecond :: "16 word"
  wMilliseconds :: "16 word"

record Consumer =
  name :: string
  kWh :: double

record Category =
  cat_name :: string
  cat_kWh :: double

record EnergyDay =
  buildingName :: string
  date :: SYSTEMTIME
  hourlyKWh :: "double list"
  topConsumers :: "Consumer list"
  categoryBreakdown :: "Category list"
  priceCZKPerKWh :: double

text \<open>
  What the program takes from the C and C++ runtime it is linked with and from the
  system: the sine of \<^verbatim>\<open><cmath>\<close>, \<^verbatim>\<open>std::sort\<close> on the consumer list, the width of a
  text as \<^verbatim>\<open>GetTextExtentPoint32W\<close> measures it. None of them is code of the
  repository, so each is a parameter of the model; what a theorem needs to know of one
  is a hypothesis of that theorem.
\<close>

record platform =
  libm_sin :: "double \<Rightarrow> double"
  std_sort :: "(Consumer \<Rightarrow> Consumer \<Rightarrow> bool) \<Rightarrow> Consumer list \<Rightarrow> Consumer list"
  textExtent :: "wstring \<Rightarrow> int"

text \<open>
  The contract of \<^verbatim>\<open>std::sort\<close> for a comparison \<open>cmp\<close>: the result is a permutation
  of the input in which no element comes before (by \<open>cmp\<close>) an earlier one. The order of
  equivalent elements is not part of the contract. The contract of the sine: its values
  lie in \<open>[-1, 1]\<close>.
\<close>

definition sorts_by :: "(('a \<Rightarrow> 'a \<Rightarrow> bool) \<Rightarrow> 'a list \<Rightarrow> 'a list) \<Rightarrow> ('a \<Rightarrow> 'a \<Rightarrow> bool) \<Rightarrow> bool" where
  "sorts_by srt cmp \<longleftrightarrow>
     (\<forall>xs. mset (srt cmp xs) = mset xs \<and> sorted_wrt (\<lambda>a b. \<not> cmp b a) (srt cmp xs))"

definition sine_bounded :: "(double \<Rightarrow> double) \<Rightarrow> bool" where
  "sine_bounded f \<longleftrightarrow> (\<forall>x. - 1 \<le> f x \<and> f x \<le> 1)"

subsection \<open>The simulator (simulateEnergyDay)\<close>

definition hourBase :: "int \<Rightarrow> double" where
  "hourBase h =
     (let baseNight = 6.5; baseWork = 16; baseEvening = 10
      in if h < 6 \<or> h \<ge> 23 then baseNight
         else if h < 8 then dadd baseNight 3
         else if h \<le> 18 then baseWork
         else baseEvening)"

definition pi_literal :: double where
  "pi_literal = dlit 3.14159265358979323846"

definition hourWave :: "(double \<Rightarrow> double) \<Rightarrow> int \<Rightarrow> double" where
  "hourWave sinf h =
     (if h \<ge> 8 \<and> h \<le> 18
      then dmul 7 (sinf (dmul (ddiv (dsub (int_to_double h) 8) 10) pi_literal))
      else 0)"

text \<open>One pass of the loop body for hour \<open>h\<close>: the value stored in \<^verbatim>\<open>hourlyKWh[h]\<close> and the
  generator after the draws. The conditional operator draws the third value only in its
  first branch.\<close>

definition hourStep :: "(double \<Rightarrow> double) \<Rightarrow> int \<Rightarrow> SeededRNG \<Rightarrow> double \<times> SeededRNG" where
  "hourStep sinf h rng =
     (let base = hourBase h;
          wave = hourWave sinf h;
          (u1, rng1) = nextDouble01 rng;
          noise = dmul (dsub u1 0.5) 2;
          (u2, rng2) = nextDouble01 rng1;
          (spike, rng3) =
            (if u2 < dlit 0.08
             then (let (u3, rng3) = nextDouble01 rng2 in (dadd 5 (dmul u3 10), rng3))
             else (0, rng2));
          kWh = max 3 (dadd (dadd (dadd base wave) noise) spike)
      in (kWh, rng3))"

function hoursLoop ::
  "(double \<Rightarrow> double) \<Rightarrow> int \<Rightarrow> SeededRNG \<Rightarrow> double list \<Rightarrow> double list \<times> SeededRNG" where
  "hoursLoop sinf h rng hourly =
     (if h < 24
      then (let (kWh, rng') = hourStep sinf h rng
            in hoursLoop sinf (h + 1) rng' (hourly[nat h := kWh]))
      else (hourly, rng))"
  by pat_completeness auto
termination
  by (relation "measure (\<lambda>(sinf, h, rng, hourly). nat (24 - h))") auto

declare hoursLoop.simps [simp del]

text \<open>The loops \<^verbatim>\<open>for (double v : ...) total += v\<close>.\<close>

definition sum_kWh :: "double list \<Rightarrow> double" where
  "sum_kWh vs = foldl dadd 0 vs"

definition cats :: "(string \<times> double) list" where
  "cats =
    [(''HVAC (chlazen'' @ [CHR 0xC3, CHR 0xAD] @ '' + VZT)'', dlit 0.42),
     (''Osv'' @ [CHR 0xC4, CHR 0x9B] @ ''tlen'' @ [CHR 0xC3, CHR 0xAD], dlit 0.22),
     (''IT + serverovna'', dlit 0.18),
     (''Z'' @ [CHR 0xC3, CHR 0xA1] @ ''suvky / kuchy'' @ [CHR 0xC5, CHR 0x88] @ ''ky'', dlit 0.10),
     (''Ostatn'' @ [CHR 0xC3, CHR 0xAD], dlit 0.08)]"

definition consumersRaw :: "(string \<times> double) list" where
  "consumersRaw =
    [(''Chiller / tepeln'' @ [CHR 0xC3, CHR 0xA9] @ '' '' @ [CHR 0xC4, CHR 0x8D] @ ''erpadlo'', dlit 0.22),
     (''VZT jednotky'', dlit 0.17),
     (''Osv'' @ [CHR 0xC4, CHR 0x9B] @ ''tlen'' @ [CHR 0xC3, CHR 0xAD] @ '' open-space'', dlit 0.15),
     (''Serverovna UPS'', dlit 0.14),
     (''EV nab'' @ [CHR 0xC3, CHR 0xAD] @ ''jen'' @ [CHR 0xC3, CHR 0xAD], dlit 0.10),
     (''V'' @ [CHR 0xC3, CHR 0xBD] @ ''tahy'', dlit 0.05),
     (''Ostatn'' @ [CHR 0xC3, CHR 0xAD], dlit 0.17)]"

definition deriveCategories :: "double \<Rightarrow> Category list" where
  "deriveCategories totalKWh = map (\<lambda>(n, share). \<lparr>cat_name = n, cat_kWh = dmul totalKWh share\<rparr>) cats"

definition deriveConsumers :: "double \<Rightarrow> Consumer list" where
  "deriveConsumers totalKWh = map (\<lambda>(n, share). \<lparr>name = n, kWh = dmul totalKWh share\<rparr>) consumersRaw"

text \<open>The comparison given to \<^verbatim>\<open>std::sort\<close>: \<^verbatim>\<open>a.kWh > b.kWh\<close>.\<close>

definition kWh_greater :: "Consumer \<Rightarrow> Consumer \<Rightarrow> bool" where
  "kWh_greater a b \<longleftrightarrow> kWh a > kWh b"

text \<open>
  The body of \<^verbatim>\<open>simulateEnergyDay\<close> from a generator, and the function itself, which
  builds the generator from the seed \<^verbatim>\<open>0xC0FFEE\<close>. \<open>now\<close> is what \<^verbatim>\<open>GetLocalTime\<close> stores.
\<close>

definition simulateFrom :: "platform \<Rightarrow> SeededRNG \<Rightarrow> SYSTEMTIME \<Rightarrow> EnergyDay" where
  "simulateFrom P rng now =
     (let (hourly, rng') = hoursLoop (libm_sin P) 0 rng (replicate 24 0);
          totalKWh = sum_kWh hourly;
          list = std_sort P kWh_greater (deriveConsumers totalKWh)
      in \<lparr>buildingName = ''Kancel'' @ [CHR 0xC3, CHR 0xA1, CHR 0xC5, CHR 0x99] @ ''sk''
             @ [CHR 0xC3, CHR 0xA1] @ '' budova A (men'' @ [CHR 0xC5, CHR 0xA1, CHR 0xC3, CHR 0xAD] @ '')'',
          date = now,
          hourlyKWh = hourly,
          topConsumers = take 6 list,
          categoryBreakdown = deriveCategories totalKWh,
          priceCZKPerKWh = dlit 3.20\<rparr>)"

definition simulateEnergyDay :: "platform \<Rightarrow> SYSTEMTIME \<Rightarrow> EnergyDay" where
  "simulateEnergyDay P now = simulateFrom P (SeededRNG_new 0xC0FFEE) now"

text \<open>
  The state that outlives a call: the system clock and the global \<^verbatim>\<open>g_day\<close>. The handler
  of \<^verbatim>\<open>WM_CREATE\<close> stores the simulated day in the global.
\<close>

record world =
  clock :: SYSTEMTIME
  g_day :: EnergyDay

definition WM_CREATE :: "platform \<Rightarrow> world \<Rightarrow> world" where
  "WM_CREATE P w = w\<lparr>g_day := simulateEnergyDay P (clock w)\<rparr>"

text \<open>The generator at the start of the pass for hour \<open>n\<close>, and the value that pass stores.\<close>

fun rngAtHour :: "(double \<Rightarrow> double) \<Rightarrow> SeededRNG \<Rightarrow> nat \<Rightarrow> SeededRNG" where
  "rngAtHour sinf rng 0 = rng"
| "rngAtHour sinf rng (Suc n) = snd (hourStep sinf (int n) (rngAtHour sinf rng n))"

definition hourValue :: "(double \<Rightarrow> double) \<Rightarrow> SeededRNG \<Rightarrow> nat \<Rightarrow> double" where
  "hourValue sinf rng n = fst (hourStep sinf (int n) (rngAtHour sinf rng n))"

text \<open>The value \<open>(x >> 11) / 2\<^sup>5\<^sup>3\<close> that \<^verbatim>\<open>nextDouble01\<close> makes of a result \<open>x\<close> of \<^verbatim>\<open>next()\<close>.\<close>

definition unit01 :: "64 word \<Rightarrow> rat" where
  "unit01 x = of_int (uint (drop_bit 11 x)) / 2 ^ 53"

text \<open>
  The generator after the pass for one hour (it does not depend on the hour or on the
  sine), and a condition on the draws of a pass, checked below for the 24 passes from the
  seed of the source: a spike, where there is one, is drawn from \<open>u3 \<le> 0.7\<close>.
\<close>

definition afterHour :: "SeededRNG \<Rightarrow> SeededRNG" where
  "afterHour rng =
     (if unit01 (fst (rng_next (snd (rng_next rng)))) < 0.08
      then snd (rng_next (snd (rng_next (snd (rng_next rng)))))
      else snd (rng_next (snd (rng_next rng))))"

definition mild :: "SeededRNG \<Rightarrow> bool" where
  "mild rng =
     (if unit01 (fst (rng_next (snd (rng_next rng)))) < 0.08
      then unit01 (fst (rng_next (snd (rng_next (snd (rng_next rng)))))) \<le> 0.7
      else True)"

fun all_mild :: "nat \<Rightarrow> SeededRNG \<Rightarrow> bool" where
  "all_mild 0 rng = True"
| "all_mild (Suc n) rng = (mild rng \<and> all_mild n (afterHour rng))"

text \<open>The total that \<^verbatim>\<open>DrawPieChart\<close> divides by: the sum of the category values.\<close>

definition sum_categories :: "Category list \<Rightarrow> double" where
  "sum_categories cs = foldl (\<lambda>total c. dadd total (cat_kWh c)) 0 cs"

subsection \<open>A concrete platform\<close>

text \<open>
  On a range of fewer than 16 elements \<^verbatim>\<open>std::sort\<close> is an insertion sort with the
  comparison it is given (libstdc++; the library of MSVC does so below 32 elements):
  each element in turn is put into the sorted elements before it, in front of the first
  one that it precedes by the comparison, so behind every one that it does not precede.
  (The library moves the element left from the end of the sorted elements, past those
  that it precedes; in a sorted range that is the same place.) The simulator sorts 7
  elements.

  The other stand-ins for the runtime, used where a theorem is instantiated: a sine (a
  Taylor polynomial, clamped and rounded), a text measure of seven pixels per
  character, and a date.
\<close>

fun insert_after :: "('a \<Rightarrow> 'a \<Rightarrow> bool) \<Rightarrow> 'a \<Rightarrow> 'a list \<Rightarrow> 'a list" where
  "insert_after cmp x [] = [x]"
| "insert_after cmp x (y # ys) = (if cmp x y then x # y # ys else y # insert_after cmp x ys)"

definition insertion_sort :: "('a \<Rightarrow> 'a \<Rightarrow> bool) \<Rightarrow> 'a list \<Rightarrow> 'a list" where
  "insertion_sort cmp xs = foldl (\<lambda>acc x. insert_after cmp x acc) [] xs"

definition poly_sin :: "double \<Rightarrow> double" where
  "poly_sin x =
     rne (max (- 1) (min 1
       (x - x ^ 3 / 6 + x ^ 5 / 120 - x ^ 7 / 5040 + x ^ 9 / 362880 - x ^ 11 / 39916800
          + x ^ 13 / 6227020800 - x ^ 15 / 1307674368000 + x ^ 17 / 355687428096000)))"

definition demo_platform :: platform where
  "demo_platform =
     \<lparr>libm_sin = poly_sin, std_sort = insertion_sort, textExtent = (\<lambda>s. 7 * int (length s))\<rparr>"

definition demo_date :: SYSTEMTIME where
  "demo_date = \<lparr>wYear = 2024, wMonth = 1, wDayOfWeek = 1, wDay = 15,
                 wHour = 9, wMinute = 30, wSecond = 0, wMilliseconds = 0\<rparr>"

text \<open>
  The order the specification states for the consumers, in its words: descending by
  kWh, ties in the order of the original list (a stable sort).
\<close>

definition stable_sort_desc :: "Consumer list \<Rightarrow> Consumer list" where
  "stable_sort_desc xs = sort_key (\<lambda>c. - kWh c) xs"

text \<open>The global \<^verbatim>\<open>g_day\<close> before \<^verbatim>\<open>WM_CREATE\<close> (static storage: empty and zero), in a
  world whose clock shows the date above.\<close>

definition blank_day :: EnergyDay where
  "blank_day =
     \<lparr>buildingName = [],
      date = \<lparr>wYear = 0, wMonth = 0, wDayOfWeek = 0, wDay = 0,
               wHour = 0, wMinute = 0, wSecond = 0, wMilliseconds = 0\<rparr>,
      hourlyKWh = [], topConsumers = [], categoryBreakdown = [], priceCZKPerKWh = 0\<rparr>"

definition demo_world :: world where
  "demo_world = \<lparr>clock = demo_date, g_day = blank_day\<rparr>"

subsection \<open>The layout of the window (WM_PAINT in WndProc)\<close>

text \<open>
  A \<^verbatim>\<open>RECT\<close> has four \<^verbatim>\<open>LONG\<close> fields; they are modelled as unbounded integers (the
  client rectangle of a window is far from the 32-bit limits). The field \<^verbatim>\<open>top\<close> is
  named \<open>rtop\<close>, since \<open>top\<close> is a constant of HOL.
\<close>

record RECT =
  left :: int
  rtop :: int
  right :: int
  bottom :: int

record Areas =
  headerArea :: RECT
  lineArea :: RECT
  barArea :: RECT
  pieArea :: RECT
  tableArea :: RECT
  checkArea :: RECT

definition margin :: int where
  "margin = 10"

definition paintAreas :: "RECT \<Rightarrow> Areas" where
  "paintAreas client =
     (let headerArea = \<lparr>left = left client + margin, rtop = rtop client + margin + 40,
                         right = right client - margin, bottom = rtop client + margin + 40 + 190\<rparr>;
          lineArea = \<lparr>left = left client + margin, rtop = bottom headerArea + margin,
                       right = right client - margin, bottom = bottom headerArea + margin + 260\<rparr>;
          barArea = \<lparr>left = left client + margin, rtop = bottom lineArea + margin,
                      right = right client - margin, bottom = bottom lineArea + margin + 250\<rparr>;
          pieArea = \<lparr>left = left client + margin, rtop = bottom barArea + margin,
                      right = right client - margin, bottom = bottom barArea + margin + 300\<rparr>;
          tableArea = \<lparr>left = left client + margin, rtop = bottom pieArea + margin,
                        right = right client - margin, bottom = bottom pieArea + margin + 320\<rparr>;
          checkArea = \<lparr>left = left client + margin, rtop = bottom tableArea + margin,
                        right = right client - margin, bottom = bottom tableArea + margin + 240\<rparr>
      in \<lparr>headerArea = headerArea, lineArea = lineArea, barArea = barArea,
          pieArea = pieArea, tableArea = tableArea, checkArea = checkArea\<rparr>)"

text \<open>The six regions in the order they are painted, and when two rectangles of the
  window share a pixel (a \<^verbatim>\<open>RECT\<close> excludes its right and bottom edge).\<close>

definition regions :: "Areas \<Rightarrow> RECT list" where
  "regions a = [headerArea a, lineArea a, barArea a, pieArea a, tableArea a, checkArea a]"

definition overlap :: "RECT \<Rightarrow> RECT \<Rightarrow> bool" where
  "overlap a b \<longleftrightarrow>
     max (left a) (left b) < min (right a) (right b) \<and>
     max (rtop a) (rtop b) < min (bottom a) (bottom b)"

definition height :: "RECT \<Rightarrow> int" where
  "height r = bottom r - rtop r"

definition width :: "RECT \<Rightarrow> int" where
  "width r = right r - left r"

subsection \<open>Drawing: the calls on the device context\<close>

text \<open>
  A drawing function is modelled by the list of GDI calls it makes, in order. Creating
  a pen and selecting it is one call \<open>SelectPen\<close> (width and colour), selecting the old
  pen back and deleting the new one is \<open>RestorePen\<close>, and likewise for brushes.
  \<open>DrawTextW\<close> is the helper of the source (a font of the given size and weight, then
  \<^verbatim>\<open>TextOutW\<close>); \<open>TextOutW\<close> is the direct call, in the current font.
\<close>

datatype stock_brush = WHITE_BRUSH | BLACK_BRUSH

datatype gdi_call =
    FillRect RECT stock_brush
  | Rectangle int int int int
  | MoveToEx int int
  | LineTo int int
  | SelectPen nat "nat \<times> nat \<times> nat"
  | RestorePen
  | SelectBrush stock_brush
  | RestoreBrush
  | DrawTextW int int wstring nat bool
  | TextOutW int int wstring

text \<open>The title and the rule under it, with which every section starts.\<close>

definition sectionHead :: "RECT \<Rightarrow> wstring \<Rightarrow> gdi_call list" where
  "sectionHead area title =
     [FillRect area WHITE_BRUSH,
      DrawTextW (left area + 10) (rtop area + 10) title 18 True,
      SelectPen 1 (0, 0, 0),
      MoveToEx (left area + 10) (rtop area + 36),
      LineTo (right area - 10) (rtop area + 36),
      RestorePen]"

text \<open>
  \<^verbatim>\<open>std::wstring(s.begin(), s.end())\<close> converts each \<^verbatim>\<open>char\<close> (signed, as on the
  compiler of the target) to a wide character. \<^verbatim>\<open>oss << std::fixed << std::setprecision(p)\<close>
  prints a double with \<open>p\<close> decimals, correctly rounded (ties to even).
\<close>

definition widen :: "string \<Rightarrow> wstring" where
  "widen s = map (\<lambda>c. signed (of_char c :: 8 word)) s"

definition digit_char :: "nat \<Rightarrow> char" where
  "digit_char n = char_of (48 + n)"

fun decimal :: "nat \<Rightarrow> string" where
  "decimal n = (if n < 10 then [digit_char n] else decimal (n div 10) @ [digit_char (n mod 10)])"

declare decimal.simps [simp del]

definition format_fixed :: "nat \<Rightarrow> double \<Rightarrow> wstring" where
  "format_fixed p x =
     (let n = nat (round_half_even (\<bar>x\<bar> * 10 ^ p));
          whole = decimal (n div 10 ^ p);
          frac = decimal (n mod 10 ^ p)
      in wide ((if x < 0 then ''-'' else []) @ whole
           @ (if p = 0 then [] else ''.'' @ replicate (p - length frac) CHR ''0'' @ frac)))"

subsection \<open>The bar chart (DrawBarChart)\<close>

definition barMax :: "Consumer list \<Rightarrow> double" where
  "barMax cs = foldl (\<lambda>maxV c. if kWh c > maxV then kWh c else maxV) 1 cs"

definition barFill :: "int \<Rightarrow> double \<Rightarrow> Consumer \<Rightarrow> int" where
  "barFill barW maxV it = (let frac = ddiv (kWh it) maxV in double_to_int (dmul (int_to_double barW) frac))"

text \<open>The body of the loop for row \<open>i\<close> of \<open>n\<close>, drawn at height \<open>y\<close>.\<close>

definition barRow :: "platform \<Rightarrow> RECT \<Rightarrow> double \<Rightarrow> nat \<Rightarrow> nat \<Rightarrow> int \<Rightarrow> Consumer \<Rightarrow> gdi_call list" where
  "barRow P area maxV n i y it =
     (let leftLabelX = left area + 10;
          barX = left area + 170;
          barW = right area - barX - 10;
          w = barFill barW maxV it;
          valStr = format_fixed 1 (kWh it);
          cx = textExtent P valStr
      in [DrawTextW leftLabelX (y + 2) (widen (name it)) 12 False,
          Rectangle barX y (barX + barW) (y + 18),
          SelectBrush BLACK_BRUSH,
          FillRect \<lparr>left = barX, rtop = y, right = barX + w, bottom = y + 18\<rparr> BLACK_BRUSH,
          RestoreBrush,
          TextOutW (right area - 10 - cx) (y + 2) valStr]
         @ (if i < n - 1
            then [SelectPen 1 (210, 210, 210),
                  MoveToEx (left area + 10) (y + 26),
                  LineTo (right area - 10) (y + 26),
                  RestorePen]
            else []))"

fun barRows :: "platform \<Rightarrow> RECT \<Rightarrow> double \<Rightarrow> nat \<Rightarrow> nat \<Rightarrow> int \<Rightarrow> Consumer list \<Rightarrow> gdi_call list" where
  "barRows P area maxV n i y [] = []"
| "barRows P area maxV n i y (it # rest) =
     barRow P area maxV n i y it @ barRows P area maxV n (Suc i) (y + 28) rest"

definition DrawBarChart :: "platform \<Rightarrow> RECT \<Rightarrow> EnergyDay \<Rightarrow> gdi_call list" where
  "DrawBarChart P area day =
     sectionHead area (wide ''Top spot'' @ [0x159] @ wide ''ebi'' @ [0x10D] @ wide ''e (kWh/den)'')
     @ (let barAreaYStart = rtop area + 60;
            maxV = barMax (topConsumers day)
        in barRows P area maxV (length (topConsumers day)) 0 barAreaYStart (topConsumers day))"

text \<open>
  The width the specification states for the filled part of a row, in its words: the
  share of the bar given by the consumer's kWh divided by the maximum kWh among the
  listed consumers.
\<close>

definition claimed_fill :: "int \<Rightarrow> Consumer list \<Rightarrow> Consumer \<Rightarrow> int" where
  "claimed_fill barW cs it =
     double_to_int (dmul (int_to_double barW) (ddiv (kWh it) (Max (kWh ` set cs))))"

subsection \<open>The checklist (DrawChecklist)\<close>

record Alert =
  alert_text :: wstring
  ok :: bool

definition peakOf :: "double list \<Rightarrow> double" where
  "peakOf vs = foldl (\<lambda>peak v. if v > peak then v else peak) 0 vs"

definition nightAvgOf :: "double list \<Rightarrow> double" where
  "nightAvgOf vs = ddiv (foldl dadd 0 (take 6 vs)) 6"

definition checklistAlerts :: "EnergyDay \<Rightarrow> Alert list" where
  "checklistAlerts day =
     (let totalKWh = sum_kWh (hourlyKWh day);
          avg = ddiv totalKWh 24;
          peak = peakOf (hourlyKWh day);
          nightAvg = nightAvgOf (hourlyKWh day);
          nightHigh = (nightAvg > dmul avg 0.75)
      in [\<lparr>alert_text = wide ''No'' @ [0x10D] @ wide ''n'' @ [0xED] @ wide '' z'' @ [0xE1] @ wide ''t''
              @ [0x11B, 0x17E] @ wide '' v norm'' @ [0x11B],
           ok = (\<not> nightHigh)\<rparr>,
          \<lparr>alert_text = [0x17D, 0xE1] @ wide ''dn'' @ [0xE1] @ wide '' extr'' @ [0xE9] @ wide ''mn''
              @ [0xED] @ wide '' '' @ [0x161] @ wide ''pi'' @ [0x10D] @ wide ''ka (> 2.0'' @ [0xD7]
              @ wide '' pr'' @ [0x16F] @ wide ''m'' @ [0x11B] @ wide ''r)'',
           ok = (\<not> (peak > dmul avg 2))\<rparr>,
          \<lparr>alert_text = wide ''K'' @ [0x159] @ wide ''ivka bez v'' @ [0xFD] @ wide ''padk'' @ [0x16F]
              @ wide '' (24/24)'',
           ok = (length (hourlyKWh day) = 24)\<rparr>,
          \<lparr>alert_text = wide ''Doporu'' @ [0x10D] @ wide ''en'' @ [0xED]
              @ wide '': zkontrolovat HVAC pl'' @ [0xE1] @ wide ''n'',
           ok = True\<rparr>,
          \<lparr>alert_text = wide ''Doporu'' @ [0x10D] @ wide ''en'' @ [0xED] @ wide '': audit osv'' @ [0x11B]
              @ wide ''tlen'' @ [0xED] @ wide '' (z'' @ [0xF3] @ wide ''ny)'',
           ok = True\<rparr>])"

text \<open>The two glyphs: the strokes of the check mark and of the cross, in the box at
  height \<open>y\<close>.\<close>

definition checkMark :: "RECT \<Rightarrow> int \<Rightarrow> gdi_call list" where
  "checkMark area y =
     [MoveToEx (left area + 12) (y + 9), LineTo (left area + 15) (y + 13),
      LineTo (left area + 21) (y + 3)]"

definition crossMark :: "RECT \<Rightarrow> int \<Rightarrow> gdi_call list" where
  "crossMark area y =
     [MoveToEx (left area + 12) (y + 3), LineTo (left area + 21) (y + 13),
      MoveToEx (left area + 21) (y + 3), LineTo (left area + 12) (y + 13)]"

definition drawAlert :: "RECT \<Rightarrow> int \<Rightarrow> Alert \<Rightarrow> gdi_call list" where
  "drawAlert area y a =
     [Rectangle (left area + 10) (y + 2) (left area + 22) (y + 14)]
     @ (if ok a
        then [SelectPen 2 (0, 0, 0)] @ checkMark area y @ [RestorePen]
        else [SelectPen 2 (0, 0, 0)] @ crossMark area y @ [RestorePen])
     @ [DrawTextW (left area + 30) (y + 2) (alert_text a) 13 (\<not> ok a)]"

fun drawAlerts :: "RECT \<Rightarrow> int \<Rightarrow> Alert list \<Rightarrow> gdi_call list" where
  "drawAlerts area y [] = []"
| "drawAlerts area y (a # rest) = drawAlert area y a @ drawAlerts area (y + 26) rest"

definition DrawChecklist :: "RECT \<Rightarrow> EnergyDay \<Rightarrow> gdi_call list" where
  "DrawChecklist area day =
     sectionHead area (wide ''Checklist / Alerts'')
     @ drawAlerts area (rtop area + 60) (checklistAlerts day)"

text \<open>
  A rectangle and two days on which the theorems about the drawing code are
  instantiated: a day with a heavy night and one extreme hour, and a day with six
  consumers between 0.5 and 8 kWh.
\<close>

definition demo_area :: RECT where
  "demo_area = \<lparr>left = 10, rtop = 1140, right = 390, bottom = 1380\<rparr>"

definition night_heavy_day :: EnergyDay where
  "night_heavy_day = blank_day\<lparr>hourlyKWh := replicate 6 30 @ replicate 17 4 @ [100]\<rparr>"

definition six_consumers_day :: EnergyDay where
  "six_consumers_day = blank_day\<lparr>topConsumers :=
     [\<lparr>name = ''A'', kWh = 8\<rparr>, \<lparr>name = ''B'', kWh = 6\<rparr>, \<lparr>name = ''C'', kWh = 4\<rparr>,
      \<lparr>name = ''D'', kWh = 2\<rparr>, \<lparr>name = ''E'', kWh = 1\<rparr>, \<lparr>name = ''F'', kWh = 1 / 2\<rparr>]\<rparr>"

section \<open>Lemmas\<close>

subsection \<open>Rounding to nearest\<close>

lemma pow2_powi: "pow2 e = 2 powi e"
  by (simp add: pow2_def power_int_def field_simps)

lemma pow2_pos: "0 < pow2 e"
  by (simp add: pow2_powi)

lemma pow2_add: "pow2 (a + b) = pow2 a * pow2 b"
  by (simp add: pow2_powi power_int_add)

lemma pow2_mono: "a \<le> b \<Longrightarrow> pow2 a \<le> pow2 b"
  by (simp add: pow2_powi power_int_increasing)

lemma pow2_nat: "0 \<le> e \<Longrightarrow> pow2 e = of_int (2 ^ nat e)"
  by (simp add: pow2_def)

lemma ilog2_bounds:
  assumes "0 < x"
  shows "pow2 (ilog2 x) \<le> x" and "x < pow2 (ilog2 x + 1)"
proof -
  obtain p q where pq: "quotient_of x = (p, q)" by (cases "quotient_of x")
  have q: "0 < q" using quotient_of_denom_pos [OF pq] .
  have x: "x = of_int p / of_int q" using quotient_of_div [OF pq] .
  have p: "0 < p" using assms q x by (simp add: zero_less_divide_iff)
  define d where "d = bitlen p - bitlen q"
  have bp: "bitlen p \<ge> 1" "bitlen q \<ge> 1" using p q bitlen_eq_zero_iff [of p] bitlen_eq_zero_iff [of q] bitlen_nonneg [of p] bitlen_nonneg [of q] by linarith+
  have up: "(of_int p :: rat) < pow2 (bitlen p)"
    using bitlen_bounds [OF p] bp by (simp add: pow2_nat)
  have lq: "pow2 (bitlen q - 1) \<le> (of_int q :: rat)"
    using bitlen_bounds [OF q] bp by (simp add: pow2_nat)
  have "x < pow2 (bitlen p) / pow2 (bitlen q - 1)"
    unfolding x using up lq q p pow2_pos [of "bitlen q - 1"]
    by (intro frac_less) (auto simp: less_imp_le)
  also have "\<dots> = pow2 (d + 1)"
    using pow2_add [of "d + 1" "bitlen q - 1"] pow2_pos [of "bitlen q - 1"]
    by (simp add: d_def field_simps)
  finally have hi: "x < pow2 (d + 1)" .
  have il: "ilog2 x = (if pow2 d \<le> x then d else d - 1)"
    by (simp add: ilog2_def pq d_def Let_def)
  have lp: "pow2 (bitlen p - 1) \<le> (of_int p :: rat)"
    using bitlen_bounds [OF p] bp by (simp add: pow2_nat)
  have uq: "(of_int q :: rat) < pow2 (bitlen q)"
    using bitlen_bounds [OF q] bp by (simp add: pow2_nat)
  have "pow2 (bitlen p - 1) / pow2 (bitlen q) \<le> x"
    unfolding x using lp uq q p pow2_pos [of "bitlen p - 1"] pow2_pos [of "bitlen q"]
    by (intro frac_le) (auto simp: less_imp_le)
  moreover have "pow2 (bitlen p - 1) / pow2 (bitlen q) = pow2 (d - 1)"
    using pow2_add [of "d - 1" "bitlen q"] pow2_pos [of "bitlen q"]
    by (simp add: d_def field_simps)
  ultimately have lo: "pow2 (d - 1) \<le> x" by simp
  show "pow2 (ilog2 x) \<le> x" using lo by (simp add: il)
  show "x < pow2 (ilog2 x + 1)" using hi by (simp add: il not_le)
qed

lemma rhe_cases:
  "round_half_even y = \<lfloor>y\<rfloor> \<or> round_half_even y = \<lfloor>y\<rfloor> + 1"
  by (simp add: round_half_even_def Let_def)

lemma rhe_nearest: "\<bar>of_int (round_half_even y) - y\<bar> \<le> \<bar>of_int n - y\<bar>"
proof -
  define f where "f = \<lfloor>y\<rfloor>"
  define r where "r = y - of_int f"
  have r: "0 \<le> r" "r < 1" unfolding r_def f_def by linarith+
  have y: "y = of_int f + r" by (simp add: r_def)
  have e: "\<bar>of_int (round_half_even y) - y\<bar> = min r (1 - r)"
    unfolding round_half_even_def Let_def f_def [symmetric] r_def [symmetric]
    using r by (auto simp: y min_def)
  have "n \<le> f \<or> f + 1 \<le> n" by linarith
  then show ?thesis
  proof
    assume "n \<le> f"
    then have "(of_int n :: rat) \<le> of_int f" by simp
    then have "\<bar>of_int n - y\<bar> \<ge> r" unfolding y using r by linarith
    then show ?thesis using e by linarith
  next
    assume "f + 1 \<le> n"
    then have "(of_int f :: rat) + 1 \<le> of_int n" by (metis of_int_1 of_int_add of_int_le_iff)
    then have "\<bar>of_int n - y\<bar> \<ge> 1 - r" unfolding y using r by linarith
    then show ?thesis using e by linarith
  qed
qed

lemma rhe_err: "\<bar>of_int (round_half_even y) - y\<bar> \<le> 1 / 2"
proof -
  have "\<bar>of_int (round_half_even y) - y\<bar> \<le> \<bar>of_int \<lfloor>y\<rfloor> - y\<bar>"
       "\<bar>of_int (round_half_even y) - y\<bar> \<le> \<bar>of_int (\<lfloor>y\<rfloor> + 1) - y\<bar>"
    by (rule rhe_nearest)+
  then show ?thesis by (simp only: of_int_add of_int_1) linarith
qed

lemma rne_nonzero:
  assumes "x \<noteq> 0"
  defines "e \<equiv> ilog2 \<bar>x\<bar> - 52"
  shows "rne x = of_int (round_half_even (x / pow2 e)) * pow2 e"
    and "2 ^ 52 \<le> \<bar>x / pow2 e\<bar>" and "\<bar>x / pow2 e\<bar> < 2 ^ 53"
proof -
  show "rne x = of_int (round_half_even (x / pow2 e)) * pow2 e"
    using assms by (simp add: rne_def Let_def)
  have ax: "0 < \<bar>x\<bar>" using assms by simp
  have pe: "0 < pow2 e" by (rule pow2_pos)
  have p52: "pow2 52 = 2 ^ 52" "pow2 53 = 2 ^ 53" by (simp_all add: pow2_def)
  have "ilog2 \<bar>x\<bar> = 52 + e" "ilog2 \<bar>x\<bar> + 1 = 53 + e" by (simp_all add: e_def)
  then have e52: "pow2 (ilog2 \<bar>x\<bar>) = 2 ^ 52 * pow2 e"
    and e53: "pow2 (ilog2 \<bar>x\<bar> + 1) = 2 ^ 53 * pow2 e"
    by (simp_all only: pow2_add p52)
  have d: "\<bar>x / pow2 e\<bar> = \<bar>x\<bar> / pow2 e" using pe by simp
  have "2 ^ 52 * pow2 e \<le> \<bar>x\<bar>" using ilog2_bounds(1) [OF ax] by (simp only: e52)
  then show "2 ^ 52 \<le> \<bar>x / pow2 e\<bar>" unfolding d using pe by (simp only: pos_le_divide_eq)
  have "\<bar>x\<bar> < 2 ^ 53 * pow2 e" using ilog2_bounds(2) [OF ax] by (simp only: e53)
  then show "\<bar>x / pow2 e\<bar> < 2 ^ 53" unfolding d using pe by (simp only: pos_divide_less_eq)
qed

lemma rne_repr: "repr (rne x)"
proof (cases "x = 0")
  case True
  then show ?thesis by (auto simp: rne_def repr_def intro: exI [of _ 0])
next
  case False
  define e where "e = ilog2 \<bar>x\<bar> - 52"
  define y where "y = x / pow2 e"
  define n where "n = round_half_even y"
  note f = rne_nonzero [OF False, folded e_def, folded y_def, folded n_def]
  have "\<bar>of_int n - y\<bar> \<le> \<bar>of_int (2 ^ 53) - y\<bar>" "\<bar>of_int n - y\<bar> \<le> \<bar>of_int (- (2 ^ 53)) - y\<bar>"
    unfolding n_def by (rule rhe_nearest)+
  then have "\<bar>(of_int n :: rat)\<bar> \<le> 2 ^ 53" using f(3) by simp
  then have "\<bar>n\<bar> \<le> 2 ^ 53" by (metis of_int_abs of_int_le_iff of_int_numeral of_int_power)
  then have "\<exists>m e'. \<bar>m\<bar> \<le> 2 ^ 53 \<and> rne x = of_int m * pow2 e'" using f(1) by blast
  then show ?thesis by (simp only: repr_def)
qed

lemma rne_nearest:
  assumes "repr z"
  shows "\<bar>rne x - x\<bar> \<le> \<bar>z - x\<bar>"
proof (cases "x = 0")
  case True
  then show ?thesis by (simp add: rne_def)
next
  case False
  define e where "e = ilog2 \<bar>x\<bar> - 52"
  define y where "y = x / pow2 e"
  define n where "n = round_half_even y"
  note f = rne_nonzero [OF False, folded e_def, folded y_def, folded n_def]
  have pe: "0 < pow2 e" by (rule pow2_pos)
  have x: "y * pow2 e = x" using pe by (simp add: y_def)
  obtain m e' where m: "\<bar>m\<bar> \<le> 2 ^ 53" and z: "z = of_int m * pow2 e'"
    using assms unfolding repr_def by blast
  define w where "w = z / pow2 e"
  have zw: "w * pow2 e = z" using pe by (simp add: w_def)
  have key: "\<bar>of_int n - y\<bar> \<le> \<bar>w - y\<bar>"
  proof (cases "e \<le> e'")
    case True
    have "pow2 e' = pow2 (e' - e) * pow2 e" using pow2_add [of "e' - e" e] by simp
    then have "w = of_int m * pow2 (e' - e)" using pe by (simp add: w_def z)
    also have "\<dots> = of_int (m * 2 ^ nat (e' - e))" using True by (simp add: pow2_nat)
    finally show ?thesis unfolding n_def by (simp only: rhe_nearest)
  next
    case False
    then have "e' \<le> e - 1" by simp
    then have "pow2 e' \<le> pow2 (e - 1)" by (rule pow2_mono)
    moreover have "pow2 e = 2 * pow2 (e - 1)" using pow2_add [of 1 "e - 1"] by (simp add: pow2_def)
    ultimately have "2 * pow2 e' \<le> pow2 e" by simp
    moreover have "\<bar>(of_int m :: rat)\<bar> \<le> 2 ^ 53"
      using m by (metis of_int_abs of_int_le_iff of_int_numeral of_int_power)
    ultimately have "\<bar>of_int m :: rat\<bar> * (2 * pow2 e') \<le> 2 ^ 53 * pow2 e"
      using pow2_pos [of e'] by (intro mult_mono) auto
    then have "2 * (\<bar>of_int m :: rat\<bar> * pow2 e') \<le> 2 * (2 ^ 52 * pow2 e)" by (simp add: mult_ac)
    moreover have "\<bar>z\<bar> = \<bar>of_int m :: rat\<bar> * pow2 e'"
      using pow2_pos [of e'] by (simp add: z abs_mult)
    ultimately have "\<bar>z\<bar> \<le> 2 ^ 52 * pow2 e" by linarith
    moreover have "\<bar>w\<bar> = \<bar>z\<bar> / pow2 e" using pe by (simp add: w_def)
    ultimately have w52: "\<bar>w\<bar> \<le> 2 ^ 52" using pe by (simp only: pos_divide_le_eq)
    have "\<bar>of_int n - y\<bar> \<le> \<bar>of_int (2 ^ 52) - y\<bar>" "\<bar>of_int n - y\<bar> \<le> \<bar>of_int (- (2 ^ 52)) - y\<bar>"
      unfolding n_def by (rule rhe_nearest)+
    then show ?thesis using w52 f(2) by simp
  qed
  have "rne x - x = (of_int n - y) * pow2 e" by (simp add: f(1) x algebra_simps)
  then have "\<bar>rne x - x\<bar> = \<bar>of_int n - y\<bar> * pow2 e"
    using pe by (simp add: abs_mult)
  moreover have "z - x = (w - y) * pow2 e" by (simp add: zw x algebra_simps)
  then have "\<bar>z - x\<bar> = \<bar>w - y\<bar> * pow2 e"
    using pe by (simp add: abs_mult)
  ultimately show ?thesis using key pe by simp
qed

lemma rne_id: "repr x \<Longrightarrow> rne x = x"
  using rne_nearest [of x x] by simp

lemma rne_idem: "rne (rne x) = rne x"
  by (rule rne_id) (rule rne_repr)

lemma rne_le: "x \<le> z \<Longrightarrow> repr z \<Longrightarrow> rne x \<le> z"
  using rne_nearest [of z x] by linarith

lemma rne_ge: "z \<le> x \<Longrightarrow> repr z \<Longrightarrow> z \<le> rne x"
  using rne_nearest [of z x] by linarith

lemma rne_mono:
  assumes "x \<le> y" shows "rne x \<le> rne y"
proof (rule ccontr)
  assume "\<not> rne x \<le> rne y"
  then have lt: "rne y < rne x" by simp
  have 1: "\<bar>rne x - x\<bar> \<le> \<bar>rne y - x\<bar>" by (rule rne_nearest) (rule rne_repr)
  have 2: "\<bar>rne y - y\<bar> \<le> \<bar>rne x - y\<bar>" by (rule rne_nearest) (rule rne_repr)
  from lt 1 2 assms have "x = y" by linarith
  with lt show False by simp
qed

lemma rne_err: "\<bar>rne x - x\<bar> \<le> \<bar>x\<bar> / 2 ^ 53"
proof (cases "x = 0")
  case True
  then show ?thesis by (simp add: rne_def)
next
  case False
  define e where "e = ilog2 \<bar>x\<bar> - 52"
  define y where "y = x / pow2 e"
  define n where "n = round_half_even y"
  note f = rne_nonzero [OF False, folded e_def, folded y_def, folded n_def]
  have pe: "0 < pow2 e" by (rule pow2_pos)
  have x: "y * pow2 e = x" using pe by (simp add: y_def)
  have "\<bar>of_int n - y\<bar> \<le> 1 / 2" unfolding n_def by (rule rhe_err)
  also have "\<dots> \<le> \<bar>y\<bar> / 2 ^ 53" using f(2) by simp
  finally have "\<bar>of_int n - y\<bar> * pow2 e \<le> \<bar>y\<bar> / 2 ^ 53 * pow2 e"
    using pe by (simp add: mult_right_mono)
  moreover have "rne x - x = (of_int n - y) * pow2 e" by (simp add: f(1) x algebra_simps)
  then have "\<bar>rne x - x\<bar> = \<bar>of_int n - y\<bar> * pow2 e"
    using pe by (simp add: abs_mult)
  moreover have "\<bar>x\<bar> = \<bar>y\<bar> * pow2 e" using pe by (simp add: x [symmetric] abs_mult)
  ultimately show ?thesis by simp
qed

lemma repr_int: "\<bar>m\<bar> \<le> 2 ^ 53 \<Longrightarrow> repr (of_int m)"
  unfolding repr_def by (rule exI [of _ m], rule exI [of _ 0]) (simp add: pow2_def)

lemma repr_div_pow2: "\<bar>m\<bar> \<le> 2 ^ 53 \<Longrightarrow> repr (of_int m / 2 ^ k)"
  unfolding repr_def by (rule exI [of _ m], rule exI [of _ "- int k"]) (simp add: pow2_def)


subsection \<open>The generator\<close>

lemma SeededRNG_new_state: "state (SeededRNG_new seed) = seed"
proof -
  have "(push_bit 64 1 - 1 :: 64 word) = - 1" by simp
  then show ?thesis by (simp only: SeededRNG_new_def SeededRNG.simps and.right_neutral)
qed

lemma rng_next_fst: "fst (rng_next rng) = state rng * 6364136223846793005 + 1"
  by (simp add: rng_next_def Let_def)

lemma rng_next_snd: "state (snd (rng_next rng)) = fst (rng_next rng)"
  by (simp add: rng_next_def Let_def)

lemma rng_next_unat:
  "unat (fst (rng_next rng)) = lcg_recurrence (unat (state rng))"
  by (simp add: rng_next_fst lcg_recurrence_def unat_word_ariths mod_Suc_eq)

lemma uint_drop_bit_11: "uint (drop_bit 11 (x :: 64 word)) = uint x div 2 ^ 11"
  by (simp add: drop_bit_eq_div uint_div_distrib)

lemma uint_top53: "uint (drop_bit 11 (x :: 64 word)) < 2 ^ 53" "0 \<le> uint (drop_bit 11 x)"
proof -
  have "uint x < 2 ^ 64" using unsigned_less [of x, where ?'a = int] by simp
  then show "uint (drop_bit 11 x) < 2 ^ 53" by (simp add: uint_drop_bit_11)
  show "0 \<le> uint (drop_bit 11 x)" by simp
qed

lemma u64_to_double_exact:
  assumes "uint w \<le> 2 ^ 53"
  shows "u64_to_double w = of_int (uint w)"
proof -
  have "\<bar>uint w\<bar> \<le> 2 ^ 53" using assms by simp
  then show ?thesis unfolding u64_to_double_def by (intro rne_id repr_int)
qed

text \<open>The values of \<^verbatim>\<open>nextDouble01\<close>: the multiples \<open>k / 2\<^sup>5\<^sup>3\<close> with \<open>0 \<le> k < 2\<^sup>5\<^sup>3\<close>.\<close>

lemma unit_exact:
  assumes "0 \<le> k" "k < 2 ^ 53"
  shows "rne (of_int k / 2 ^ 53) = of_int k / 2 ^ 53"
  by (rule rne_id [OF repr_div_pow2]) (use assms in simp)

lemma unit_range:
  assumes "0 \<le> k" "k < 2 ^ 53"
  shows "0 \<le> (of_int k :: rat) / 2 ^ 53" and "(of_int k :: rat) / 2 ^ 53 < 1"
proof -
  show "0 \<le> (of_int k :: rat) / 2 ^ 53" using assms by simp
  have "(of_int k :: rat) < of_int (2 ^ 53)" using assms by (simp only: of_int_less_iff)
  then show "(of_int k :: rat) / 2 ^ 53 < 1" by simp
qed

lemma nextDouble01_fst:
  "fst (nextDouble01 rng) = of_int (uint (drop_bit 11 (fst (rng_next rng)))) / 2 ^ 53"
proof -
  let ?v = "drop_bit 11 (fst (rng_next rng))"
  note v = uint_top53 [of "fst (rng_next rng)"]
  have a: "u64_to_double ?v = of_int (uint ?v)"
    by (rule u64_to_double_exact) (use v in simp)
  have "uint (push_bit 53 1 :: 64 word) = 2 ^ 53" by simp
  then have b: "u64_to_double (push_bit 53 1) = of_int (2 ^ 53)"
    using u64_to_double_exact [of "push_bit 53 1"] by (simp only: order_refl)
  have "fst (nextDouble01 rng) = ddiv (u64_to_double ?v) (u64_to_double (push_bit 53 1))"
    by (simp only: nextDouble01_def Let_def split_beta fst_conv)
  also have "\<dots> = rne (of_int (uint ?v) / 2 ^ 53)"
    by (simp only: a b ddiv_def of_int_power of_int_numeral)
  also have "\<dots> = of_int (uint ?v) / 2 ^ 53" by (rule unit_exact [OF v(2) v(1)])
  finally show ?thesis .
qed

lemma nextDouble01_snd: "snd (nextDouble01 rng) = snd (rng_next rng)"
  by (simp add: nextDouble01_def Let_def split_beta)

lemma nextDouble01_range: "0 \<le> fst (nextDouble01 rng)" "fst (nextDouble01 rng) < 1"
  unfolding nextDouble01_fst by (rule unit_range [OF uint_top53(2) uint_top53(1)])+

lemma next_outputs_reference:
  "map unat (next_outputs n rng) = reference_sequence (unat (state rng)) n"
proof (induction n arbitrary: rng)
  case 0
  show ?case by (simp add: reference_sequence_def)
next
  case (Suc n)
  let ?x = "fst (rng_next rng)" and ?r = "snd (rng_next rng)"
  have "map unat (next_outputs (Suc n) rng) = unat ?x # map unat (next_outputs n ?r)"
    by (simp add: split_beta)
  also have "\<dots> = unat ?x # reference_sequence (unat ?x) n"
    by (simp add: Suc.IH rng_next_snd)
  also have "\<dots> = reference_sequence (unat (state rng)) (Suc n)"
    unfolding reference_sequence_def rng_next_unat
    by (simp only: upt_conv_Cons [of 0 "Suc n"] map_Suc_upt [symmetric] list.map map_map o_def
        funpow_swap1 [symmetric] zero_less_Suc) simp
  finally show ?case .
qed

lemma nextDouble01_eq: "nextDouble01 rng = (unit01 (fst (rng_next rng)), snd (rng_next rng))"
  by (simp only: prod_eq_iff fst_conv snd_conv nextDouble01_fst nextDouble01_snd unit01_def)

lemma unit01_cases:
  obtains k where "0 \<le> k" "k < 2 ^ 53" "unit01 x = of_int k / 2 ^ 53"
  using uint_top53 [of x] unfolding unit01_def by blast

lemma unit01_range: "0 \<le> unit01 x" "unit01 x < 1"
  unfolding unit01_def by (rule unit_range [OF uint_top53(2) uint_top53(1)])+

subsection \<open>One hour of the simulation\<close>

lemma dlit_008: "dlit 0.08 = 5764607523034235 / 72057594037927936"
  by code_simp

lemma rne_small_ints: "rne 0 = 0" "rne 3 = 3" "rne 5 = 5" "rne 7 = 7" "rne 23 = 23" "rne 24 = 24"
  "rne 39 = 39" "rne (- 1) = - 1" "rne 1 = 1"
  by code_simp+

lemma hourBase_values:
  "hourBase h = (if h < 6 \<or> 23 \<le> h then 6.5 else if h < 8 then 9.5 else if h \<le> 18 then 16 else 10)"
proof -
  have "dadd 6.5 3 = 9.5" by code_simp
  then show ?thesis by (simp add: hourBase_def Let_def)
qed

lemma noise_exact:
  assumes "0 \<le> k" "k < 2 ^ 53"
  shows "dmul (dsub (of_int k / 2 ^ 53) 0.5) 2 = (of_int k / 2 ^ 53 - 1 / 2) * 2"
proof -
  have a: "(of_int k :: rat) / 2 ^ 53 - 0.5 = of_int (k - 2 ^ 52) / 2 ^ 53" by simp
  have b: "(of_int (k - 2 ^ 52) :: rat) / 2 ^ 53 * 2 = of_int (k - 2 ^ 52) / 2 ^ 52" by simp
  have m: "\<bar>k - 2 ^ 52\<bar> \<le> 2 ^ 53" using assms by simp
  have "dsub (of_int k / 2 ^ 53) 0.5 = of_int (k - 2 ^ 52) / 2 ^ 53"
    unfolding dsub_def a by (rule rne_id [OF repr_div_pow2 [OF m]])
  moreover have "dmul (of_int (k - 2 ^ 52) / 2 ^ 53) 2 = of_int (k - 2 ^ 52) / 2 ^ 52"
    unfolding dmul_def b by (rule rne_id [OF repr_div_pow2 [OF m]])
  moreover have "((of_int k :: rat) / 2 ^ 53 - 1 / 2) * 2 = of_int (k - 2 ^ 52) / 2 ^ 52" by simp
  ultimately show ?thesis by (simp only:)
qed

lemma spike_threshold:
  assumes "0 \<le> k" "k < 2 ^ 53"
  shows "(of_int k / 2 ^ 53 < dlit 0.08) \<longleftrightarrow> ((of_int k :: rat) / 2 ^ 53 < 0.08)"
proof -
  have "((of_int k :: rat) / 2 ^ 53 < 5764607523034235 / 72057594037927936)
      \<longleftrightarrow> (of_int (8 * k) < (of_int 5764607523034235 :: rat))"
    by (simp add: field_simps)
  also have "\<dots> \<longleftrightarrow> 8 * k < 5764607523034235" by (simp only: of_int_less_iff)
  also have "\<dots> \<longleftrightarrow> k \<le> 720575940379279" by linarith
  also have "\<dots> \<longleftrightarrow> 100 * k < 72057594037927936" by linarith
  also have "\<dots> \<longleftrightarrow> (of_int (100 * k) < (of_int 72057594037927936 :: rat))"
    by (simp only: of_int_less_iff)
  also have "\<dots> \<longleftrightarrow> ((of_int k :: rat) / 2 ^ 53 < 0.08)" by (simp add: field_simps)
  finally show ?thesis by (simp only: dlit_008)
qed

lemma spike_range:
  assumes "0 \<le> k" "k < 2 ^ 53"
  shows "5 \<le> dadd 5 (dmul (of_int k / 2 ^ 53) 10)" and "dadd 5 (dmul (of_int k / 2 ^ 53) 10) < 15"
proof -
  let ?u = "(of_int k :: rat) / 2 ^ 53"
  let ?p = "dmul ?u 10"
  have top: "rne ((2 ^ 53 - 1) / 2 ^ 53 * 10) = 10 - 1 / 2 ^ 49" by code_simp
  have top2: "rne (5 + (10 - 1 / 2 ^ 49)) = 15 - 1 / 2 ^ 49" by code_simp
  have "k \<le> 2 ^ 53 - 1" using assms by simp
  then have "(of_int k :: rat) \<le> of_int (2 ^ 53 - 1)" by (simp only: of_int_le_iff)
  then have "?u * 10 \<le> (2 ^ 53 - 1) / 2 ^ 53 * 10" by (simp add: field_simps)
  then have p1: "?p \<le> 10 - 1 / 2 ^ 49" unfolding dmul_def using rne_mono top by metis
  have "0 \<le> ?u * 10" using assms by simp
  then have p0: "0 \<le> ?p" unfolding dmul_def using rne_mono rne_small_ints(1) by metis
  have "rne 5 \<le> rne (5 + ?p)" using p0 by (intro rne_mono) simp
  then show "5 \<le> dadd 5 ?p" by (simp only: dadd_def rne_small_ints)
  have "rne (5 + ?p) \<le> rne (5 + (10 - 1 / 2 ^ 49))" using p1 by (intro rne_mono) simp
  then show "dadd 5 ?p < 15" by (simp only: dadd_def top2) simp
qed

lemma hourStep_eq:
  "hourStep sinf h rng =
     (let x1 = fst (rng_next rng); r1 = snd (rng_next rng);
          x2 = fst (rng_next r1); r2 = snd (rng_next r1);
          x3 = fst (rng_next r2); r3 = snd (rng_next r2);
          noise = (unit01 x1 - 1 / 2) * 2;
          spike = (if unit01 x2 < 0.08 then dadd 5 (dmul (unit01 x3) 10) else 0)
      in (max 3 (dadd (dadd (dadd (hourBase h) (hourWave sinf h)) noise) spike),
          if unit01 x2 < 0.08 then r3 else r2))"
proof -
  obtain k1 where k1: "0 \<le> k1" "k1 < 2 ^ 53" "unit01 (fst (rng_next rng)) = of_int k1 / 2 ^ 53"
    by (rule unit01_cases)
  obtain k2 where k2: "0 \<le> k2" "k2 < 2 ^ 53"
      "unit01 (fst (rng_next (snd (rng_next rng)))) = of_int k2 / 2 ^ 53"
    by (rule unit01_cases)
  note n = noise_exact [OF k1(1,2), folded k1(3)]
  note t = spike_threshold [OF k2(1,2), folded k2(3)]
  show ?thesis
    unfolding hourStep_def nextDouble01_eq Let_def split_conv n t
    by (cases "unit01 (fst (rng_next (snd (rng_next rng)))) < 0.08")
      (simp_all only: if_True if_False split_conv)
qed

lemma hourStep_ge_3: "3 \<le> fst (hourStep sinf h rng)"
  by (simp add: hourStep_eq Let_def)

subsection \<open>The loop over the hours\<close>

lemma hoursLoop_unfold:
  assumes "k < 24"
  shows "hoursLoop sinf (int k) rng hs
       = hoursLoop sinf (int (Suc k)) (snd (hourStep sinf (int k) rng))
           (hs[k := fst (hourStep sinf (int k) rng)])"
proof -
  have c: "int k < 24" using assms by simp
  have e: "int k + 1 = int (Suc k)" by simp
  show ?thesis
    by (subst hoursLoop.simps) (simp only: c if_True split_beta Let_def e nat_int)
qed

lemma hoursLoop_done: "hoursLoop sinf 24 rng hs = (hs, rng)"
  by (subst hoursLoop.simps) simp

lemma hoursLoop_from:
  assumes "length hs = 24" "k \<le> 24"
  shows "fst (hoursLoop sinf (int k) (rngAtHour sinf rng k) hs)
       = take k hs @ map (hourValue sinf rng) [k..<24]"
  using assms
proof (induction "24 - k" arbitrary: k hs)
  case 0
  then have "k = 24" by simp
  then show ?case using "0.prems" by (simp add: hoursLoop_done)
next
  case (Suc d)
  then have k: "k < 24" by simp
  let ?v = "hourValue sinf rng k"
  have "fst (hoursLoop sinf (int k) (rngAtHour sinf rng k) hs)
      = fst (hoursLoop sinf (int (Suc k)) (rngAtHour sinf rng (Suc k)) (hs[k := ?v]))"
    by (simp only: hoursLoop_unfold [OF k] rngAtHour.simps hourValue_def)
  also have "\<dots> = take (Suc k) (hs[k := ?v]) @ map (hourValue sinf rng) [Suc k..<24]"
    using Suc.hyps(2) Suc.prems k by (intro Suc.hyps(1)) simp_all
  also have "take (Suc k) (hs[k := ?v]) = take k hs @ [?v]"
    using k Suc.prems(1) by (simp add: take_Suc_conv_app_nth)
  finally show ?case using k by (simp add: upt_conv_Cons)
qed

lemma hoursLoop_24:
  "fst (hoursLoop sinf 0 rng (replicate 24 0)) = map (hourValue sinf rng) [0..<24]"
  using hoursLoop_from [of "replicate 24 0" 0 sinf rng] by simp

lemma simulateFrom_fields:
  "hourlyKWh (simulateFrom P rng now) = map (hourValue (libm_sin P) rng) [0..<24]"
  "date (simulateFrom P rng now) = now"
  "categoryBreakdown (simulateFrom P rng now)
     = deriveCategories (sum_kWh (hourlyKWh (simulateFrom P rng now)))"
  "topConsumers (simulateFrom P rng now)
     = take 6 (std_sort P kWh_greater (deriveConsumers (sum_kWh (hourlyKWh (simulateFrom P rng now)))))"
  by (simp_all add: simulateFrom_def split_beta Let_def hoursLoop_24)

lemma hourValue_ge_3: "3 \<le> hourValue sinf rng n"
  unfolding hourValue_def by (rule hourStep_ge_3)



subsection \<open>Bounds on the hourly values and on the total\<close>

lemma rne_more_ints: "rne 12 = 12" "rne 36 = 36" "rne 16 = 16"
  by code_simp+

lemma add3_le:
  assumes "b \<le> B" "w \<le> W" "n \<le> N" "s \<le> S"
  shows "dadd (dadd (dadd b w) n) s \<le> rne (rne (rne (B + W) + N) + S)"
proof -
  have "dadd b w \<le> rne (B + W)" unfolding dadd_def using assms by (intro rne_mono) simp
  then have "dadd (dadd b w) n \<le> rne (rne (B + W) + N)"
    unfolding dadd_def using assms by (intro rne_mono) simp
  then show ?thesis unfolding dadd_def using assms by (intro rne_mono) simp
qed

lemma hourBase_le: "hourBase h \<le> 16"
  by (simp add: hourBase_values)

lemma hourWave_le:
  assumes "sine_bounded sinf"
  shows "hourWave sinf h \<le> 7"
proof (cases "8 \<le> h \<and> h \<le> 18")
  case True
  let ?a = "dmul (ddiv (dsub (int_to_double h) 8) 10) pi_literal"
  have "sinf ?a \<le> 1" using assms by (simp add: sine_bounded_def)
  then have "rne (7 * sinf ?a) \<le> rne 7" by (intro rne_mono) simp
  then show ?thesis using True by (simp add: hourWave_def dmul_def rne_small_ints)
next
  case False
  then show ?thesis by (auto simp: hourWave_def)
qed

lemma spike_mild:
  assumes "0 \<le> u" "u \<le> 0.7"
  shows "dadd 5 (dmul u 10) \<le> 12"
proof -
  have "rne (u * 10) \<le> rne 7" using assms by (intro rne_mono) simp
  then have "rne (5 + dmul u 10) \<le> rne 12"
    unfolding dmul_def rne_small_ints by (intro rne_mono) simp
  then show ?thesis by (simp only: dadd_def rne_more_ints)
qed

lemma hourStep_le_39:
  assumes "sine_bounded sinf"
  shows "fst (hourStep sinf h rng) \<le> 39"
proof -
  let ?x1 = "fst (rng_next rng)" and ?r1 = "snd (rng_next rng)"
  let ?x2 = "fst (rng_next ?r1)" and ?r2 = "snd (rng_next ?r1)"
  let ?x3 = "fst (rng_next ?r2)"
  let ?spike = "if unit01 ?x2 < 0.08 then dadd 5 (dmul (unit01 ?x3) 10) else 0"
  obtain k where k: "0 \<le> k" "k < 2 ^ 53" "unit01 ?x3 = of_int k / 2 ^ 53"
    by (rule unit01_cases)
  have "?spike \<le> 15" using spike_range(2) [OF k(1,2), folded k(3)] by simp
  moreover have "(unit01 ?x1 - 1 / 2) * 2 \<le> 1" using unit01_range(2) [of ?x1] by simp
  ultimately have "dadd (dadd (dadd (hourBase h) (hourWave sinf h)) ((unit01 ?x1 - 1 / 2) * 2)) ?spike
      \<le> rne (rne (rne (16 + 7) + 1) + 15)"
    by (intro add3_le hourBase_le hourWave_le assms)
  then show ?thesis by (simp add: hourStep_eq Let_def rne_small_ints)
qed

lemma hourStep_le_36:
  assumes "sine_bounded sinf" "mild rng"
  shows "fst (hourStep sinf h rng) \<le> 36"
proof -
  let ?x1 = "fst (rng_next rng)" and ?r1 = "snd (rng_next rng)"
  let ?x2 = "fst (rng_next ?r1)" and ?r2 = "snd (rng_next ?r1)"
  let ?x3 = "fst (rng_next ?r2)"
  let ?spike = "if unit01 ?x2 < 0.08 then dadd 5 (dmul (unit01 ?x3) 10) else 0"
  have "?spike \<le> 12"
    using assms(2) spike_mild [OF unit01_range(1), of ?x3]
    by (simp add: mild_def split: if_splits)
  moreover have "(unit01 ?x1 - 1 / 2) * 2 \<le> 1" using unit01_range(2) [of ?x1] by simp
  ultimately have "dadd (dadd (dadd (hourBase h) (hourWave sinf h)) ((unit01 ?x1 - 1 / 2) * 2)) ?spike
      \<le> rne (rne (rne (16 + 7) + 1) + 12)"
    by (intro add3_le hourBase_le hourWave_le assms)
  then show ?thesis by (simp add: hourStep_eq Let_def rne_small_ints rne_more_ints)
qed

lemma snd_hourStep: "snd (hourStep sinf h rng) = afterHour rng"
  by (simp add: hourStep_eq Let_def afterHour_def)

lemma rngAtHour_funpow: "rngAtHour sinf rng n = (afterHour ^^ n) rng"
  by (induction n) (simp_all add: snd_hourStep)

lemma all_mild_nth: "all_mild n rng \<Longrightarrow> k < n \<Longrightarrow> mild ((afterHour ^^ k) rng)"
proof (induction n arbitrary: rng k)
  case 0
  then show ?case by simp
next
  case (Suc n)
  show ?case
  proof (cases k)
    case 0
    then show ?thesis using Suc.prems by simp
  next
    case (Suc j)
    then have "mild ((afterHour ^^ j) (afterHour rng))" using Suc.prems by (intro Suc.IH) simp_all
    then show ?thesis using Suc by (simp add: funpow_swap1)
  qed
qed

lemma all_mild_C0FFEE: "all_mild 24 (SeededRNG_new 0xC0FFEE)"
  by code_simp

lemma foldl_dadd_bounds:
  fixes lo hi a b :: int
  assumes "\<forall>v\<in>set vs. of_int lo \<le> v \<and> v \<le> of_int hi"
    and "of_int a \<le> acc" "acc \<le> of_int b"
    and "\<bar>a\<bar> + \<bar>lo\<bar> * int (length vs) \<le> 2 ^ 53" "\<bar>b\<bar> + \<bar>hi\<bar> * int (length vs) \<le> 2 ^ 53"
  shows "of_int (a + lo * int (length vs)) \<le> foldl dadd acc vs
       \<and> foldl dadd acc vs \<le> of_int (b + hi * int (length vs))"
  using assms
proof (induction vs arbitrary: acc a b)
  case Nil
  then show ?case by simp
next
  case (Cons v vs)
  have v: "of_int lo \<le> v" "v \<le> of_int hi" using Cons.prems(1) by simp_all
  define p where "p = \<bar>lo\<bar> * int (length vs)"
  define q where "q = \<bar>hi\<bar> * int (length vs)"
  have n: "0 \<le> p" "0 \<le> q" by (simp_all add: p_def q_def)
  have p4: "\<bar>a\<bar> + (\<bar>lo\<bar> + p) \<le> 2 ^ 53"
    using Cons.prems(4) by (simp add: algebra_simps p_def)
  have p5: "\<bar>b\<bar> + (\<bar>hi\<bar> + q) \<le> 2 ^ 53"
    using Cons.prems(5) by (simp add: algebra_simps q_def)
  have ra: "\<bar>a + lo\<bar> \<le> 2 ^ 53" using p4 n by linarith
  have rb: "\<bar>b + hi\<bar> \<le> 2 ^ 53" using p5 n by linarith
  have 1: "of_int (a + lo) \<le> dadd acc v"
    unfolding dadd_def using v Cons.prems(2) by (intro rne_ge repr_int ra) simp
  have 2: "dadd acc v \<le> of_int (b + hi)"
    unfolding dadd_def using v Cons.prems(3) by (intro rne_le repr_int rb) simp
  have 3: "\<bar>a + lo\<bar> + \<bar>lo\<bar> * int (length vs) \<le> 2 ^ 53"
    using p4 unfolding p_def [symmetric] by linarith
  have 4: "\<bar>b + hi\<bar> + \<bar>hi\<bar> * int (length vs) \<le> 2 ^ 53"
    using p5 unfolding q_def [symmetric] by linarith
  have "\<forall>v\<in>set vs. of_int lo \<le> v \<and> v \<le> of_int hi" using Cons.prems(1) by simp
  from Cons.IH [OF this 1 2 3 4] show ?case by (simp add: algebra_simps)
qed

lemma sum_kWh_bounds:
  fixes lo hi :: int
  assumes "\<forall>v\<in>set vs. of_int lo \<le> v \<and> v \<le> of_int hi"
    and "\<bar>lo\<bar> * int (length vs) \<le> 2 ^ 53" "\<bar>hi\<bar> * int (length vs) \<le> 2 ^ 53"
  shows "of_int (lo * int (length vs)) \<le> sum_kWh vs" "sum_kWh vs \<le> of_int (hi * int (length vs))"
  using foldl_dadd_bounds [of vs lo hi 0 0 0] assms by (simp_all add: sum_kWh_def)

lemma hourly_bounds:
  assumes "sine_bounded (libm_sin P)"
  shows "\<forall>v\<in>set (hourlyKWh (simulateFrom P rng now)). 3 \<le> v \<and> v \<le> 39"
  by (simp add: simulateFrom_fields hourValue_ge_3) (simp add: hourValue_def hourStep_le_39 assms)

lemma total_bounds:
  assumes "sine_bounded (libm_sin P)"
  shows "72 \<le> sum_kWh (hourlyKWh (simulateFrom P rng now))"
    and "sum_kWh (hourlyKWh (simulateFrom P rng now)) \<le> 936"
proof -
  let ?hs = "hourlyKWh (simulateFrom P rng now)"
  have l: "length ?hs = 24" by (simp add: simulateFrom_fields)
  have b: "\<forall>v\<in>set ?hs. of_int 3 \<le> v \<and> v \<le> of_int 39"
    using hourly_bounds [OF assms] by simp
  show "72 \<le> sum_kWh ?hs" using sum_kWh_bounds(1) [OF b] by (simp add: l)
  show "sum_kWh ?hs \<le> 936" using sum_kWh_bounds(2) [OF b] by (simp add: l)
qed

lemma hourly_bounds_C0FFEE:
  assumes "sine_bounded (libm_sin P)"
  shows "\<forall>v\<in>set (hourlyKWh (simulateEnergyDay P now)). 3 \<le> v \<and> v \<le> 36"
proof -
  have "hourValue (libm_sin P) (SeededRNG_new 0xC0FFEE) n \<le> 36" if "n < 24" for n
    unfolding hourValue_def rngAtHour_funpow
    by (intro hourStep_le_36 assms all_mild_nth [OF all_mild_C0FFEE] that)
  then show ?thesis
    by (simp add: simulateEnergyDay_def simulateFrom_fields hourValue_ge_3)
qed

lemma total_bounds_C0FFEE:
  assumes "sine_bounded (libm_sin P)"
  shows "sum_kWh (hourlyKWh (simulateEnergyDay P now)) \<le> 864"
proof -
  let ?hs = "hourlyKWh (simulateEnergyDay P now)"
  have l: "length ?hs = 24" by (simp add: simulateEnergyDay_def simulateFrom_fields)
  have b: "\<forall>v\<in>set ?hs. of_int 3 \<le> v \<and> v \<le> of_int 36"
    using hourly_bounds_C0FFEE [OF assms] by simp
  show ?thesis using sum_kWh_bounds(2) [OF b] by (simp add: l)
qed

subsection \<open>The shares and the sum of the categories\<close>

lemma dlit_shares:
  "dlit 0.42 = 7566047373982433 / 18014398509481984"
  "dlit 0.22 = 7926335344172073 / 36028797018963968"
  "dlit 0.18 = 3242591731706757 / 18014398509481984"
  "dlit 0.10 = 3602879701896397 / 36028797018963968"
  "dlit 0.17 = 6124895493223875 / 36028797018963968"
  "dlit 0.15 = 5404319552844595 / 36028797018963968"
  "dlit 0.14 = 1261007895663739 / 9007199254740992"
  "dlit 0.05 = 3602879701896397 / 72057594037927936"
  by code_simp+

lemma deriveCategories_values:
  "map cat_kWh (deriveCategories t)
     = [dmul t (dlit 0.42), dmul t (dlit 0.22), dmul t (dlit 0.18), dmul t (dlit 0.10), dmul t (dlit 0.08)]"
  "map cat_name (deriveCategories t) = map fst cats"
  by (simp_all add: deriveCategories_def cats_def)

lemma sum_categories_unfold:
  "sum_categories (deriveCategories t)
     = dadd (dadd (dadd (dadd (dadd 0 (dmul t (dlit 0.42))) (dmul t (dlit 0.22)))
         (dmul t (dlit 0.18))) (dmul t (dlit 0.10))) (dmul t (dlit 0.08))"
  by (simp add: sum_categories_def deriveCategories_def cats_def)

lemma rne_step:
  fixes B :: int
  assumes "0 \<le> x" "x \<le> of_int B" "B \<le> 6000"
  shows "0 \<le> rne x" "rne x \<le> of_int B"
    "x - 6000 / 2 ^ 53 \<le> rne x" "rne x \<le> x + 6000 / 2 ^ 53"
proof -
  show "0 \<le> rne x" using rne_mono [OF assms(1)] by (simp add: rne_small_ints)
  have "0 \<le> B" using assms(1,2) by (metis of_int_0_le_iff order_trans)
  then have "\<bar>B\<bar> \<le> 2 ^ 53" using assms(3) by simp
  then show "rne x \<le> of_int B" by (intro rne_le assms repr_int)
  have "(of_int B :: rat) \<le> of_int 6000" using assms(3) by (simp only: of_int_le_iff)
  then have "x \<le> 6000" using assms(2) by simp
  have "\<bar>rne x - x\<bar> \<le> \<bar>x\<bar> / 2 ^ 53" by (rule rne_err)
  also have "\<dots> \<le> 6000 / 2 ^ 53" using assms(1) \<open>x \<le> 6000\<close> by (simp add: divide_right_mono)
  finally have e: "\<bar>rne x - x\<bar> \<le> 6000 / 2 ^ 53" .
  show "x - 6000 / 2 ^ 53 \<le> rne x" using e by linarith
  show "rne x \<le> x + 6000 / 2 ^ 53" using e by linarith
qed

lemma share_scale:
  fixes t S :: rat
  assumes "0 \<le> t" "t \<le> 1000" "0 \<le> S" "S \<le> 1"
  shows "0 \<le> t * S" "t * S \<le> of_int 1000"
proof -
  show "0 \<le> t * S" using assms by simp
  have "t * S \<le> t * 1" using assms by (intro mult_left_mono) simp_all
  then show "t * S \<le> of_int 1000" using assms by simp
qed

lemma categories_sum_close:
  assumes "0 \<le> t" "t \<le> 1000"
  shows "\<bar>sum_categories (deriveCategories t) - t\<bar> < 1 / 10 ^ 6"
proof -
  define S1 :: rat where "S1 = 7566047373982433 / 18014398509481984"
  define S2 :: rat where "S2 = 7926335344172073 / 36028797018963968"
  define S3 :: rat where "S3 = 3242591731706757 / 18014398509481984"
  define S4 :: rat where "S4 = 3602879701896397 / 36028797018963968"
  define S5 :: rat where "S5 = 5764607523034235 / 72057594037927936"
  define \<delta> :: rat where "\<delta> = 6000 / 2 ^ 53"
  define \<eta> :: rat where "\<eta> = t * (1 - (S1 + S2 + S3 + S4 + S5))"
  define c1 where "c1 = rne (t * S1)"
  define c2 where "c2 = rne (t * S2)"
  define c3 where "c3 = rne (t * S3)"
  define c4 where "c4 = rne (t * S4)"
  define c5 where "c5 = rne (t * S5)"
  define a1 where "a1 = rne (0 + c1)"
  define a2 where "a2 = rne (a1 + c2)"
  define a3 where "a3 = rne (a2 + c3)"
  define a4 where "a4 = rne (a3 + c4)"
  define a5 where "a5 = rne (a4 + c5)"
  have S: "0 \<le> S1" "S1 \<le> 1" "0 \<le> S2" "S2 \<le> 1" "0 \<le> S3" "S3 \<le> 1"
    "0 \<le> S4" "S4 \<le> 1" "0 \<le> S5" "S5 \<le> 1"
    by (simp_all add: S1_def S2_def S3_def S4_def S5_def)
  have "1 - (S1 + S2 + S3 + S4 + S5) = 1 / 2 ^ 56"
    by (simp add: S1_def S2_def S3_def S4_def S5_def)
  then have "\<eta> = t / 2 ^ 56" by (simp add: \<eta>_def)
  then have \<eta>: "0 \<le> \<eta>" "\<eta> \<le> 1000 / 2 ^ 56" using assms by (simp_all add: divide_right_mono)
  have num: "10 * \<delta> + 1000 / 2 ^ 56 < 1 / 10 ^ 6" by (simp add: \<delta>_def)
  note c1 = rne_step [OF share_scale [OF assms S(1,2)], folded c1_def \<delta>_def]
  note c2 = rne_step [OF share_scale [OF assms S(3,4)], folded c2_def \<delta>_def]
  note c3 = rne_step [OF share_scale [OF assms S(5,6)], folded c3_def \<delta>_def]
  note c4 = rne_step [OF share_scale [OF assms S(7,8)], folded c4_def \<delta>_def]
  note c5 = rne_step [OF share_scale [OF assms S(9,10)], folded c5_def \<delta>_def]
  have b1: "0 \<le> c1" "c1 \<le> 1000" "t * S1 - \<delta> \<le> c1" "c1 \<le> t * S1 + \<delta>"
    using c1 by simp_all
  have b2: "0 \<le> c2" "c2 \<le> 1000" "t * S2 - \<delta> \<le> c2" "c2 \<le> t * S2 + \<delta>"
    using c2 by simp_all
  have b3: "0 \<le> c3" "c3 \<le> 1000" "t * S3 - \<delta> \<le> c3" "c3 \<le> t * S3 + \<delta>"
    using c3 by simp_all
  have b4: "0 \<le> c4" "c4 \<le> 1000" "t * S4 - \<delta> \<le> c4" "c4 \<le> t * S4 + \<delta>"
    using c4 by simp_all
  have b5: "0 \<le> c5" "c5 \<le> 1000" "t * S5 - \<delta> \<le> c5" "c5 \<le> t * S5 + \<delta>"
    using c5 by simp_all
  have s1: "0 \<le> a1" "a1 \<le> 1000" "0 + c1 - \<delta> \<le> a1" "a1 \<le> 0 + c1 + \<delta>"
    using rne_step [of "0 + c1" 1000, folded a1_def \<delta>_def] b1 by simp_all
  have s2: "0 \<le> a2" "a2 \<le> 2000" "a1 + c2 - \<delta> \<le> a2" "a2 \<le> a1 + c2 + \<delta>"
    using rne_step [of "a1 + c2" 2000, folded a2_def \<delta>_def] b2 s1 by simp_all
  have s3: "0 \<le> a3" "a3 \<le> 3000" "a2 + c3 - \<delta> \<le> a3" "a3 \<le> a2 + c3 + \<delta>"
    using rne_step [of "a2 + c3" 3000, folded a3_def \<delta>_def] b3 s2 by simp_all
  have s4: "0 \<le> a4" "a4 \<le> 4000" "a3 + c4 - \<delta> \<le> a4" "a4 \<le> a3 + c4 + \<delta>"
    using rne_step [of "a3 + c4" 4000, folded a4_def \<delta>_def] b4 s3 by simp_all
  have s5: "0 \<le> a5" "a5 \<le> 5000" "a4 + c5 - \<delta> \<le> a5" "a5 \<le> a4 + c5 + \<delta>"
    using rne_step [of "a4 + c5" 5000, folded a5_def \<delta>_def] b5 s4 by simp_all
  have id: "a5 - t = (a5 - (a4 + c5)) + (a4 - (a3 + c4)) + (a3 - (a2 + c3)) + (a2 - (a1 + c2))
      + (a1 - (0 + c1)) + (c1 - t * S1) + (c2 - t * S2) + (c3 - t * S3) + (c4 - t * S4)
      + (c5 - t * S5) - \<eta>"
    by (simp add: \<eta>_def algebra_simps)
  have eq: "sum_categories (deriveCategories t) = a5"
    by (simp only: sum_categories_unfold dlit_shares dlit_008 dadd_def dmul_def
        a5_def a4_def a3_def a2_def a1_def c1_def c2_def c3_def c4_def c5_def
        S1_def S2_def S3_def S4_def S5_def)
  have "a5 - t < 1 / 10 ^ 6"
    unfolding id using b1(4) b2(4) b3(4) b4(4) b5(4) s1(4) s2(4) s3(4) s4(4) s5(4) \<eta> num
    by linarith
  moreover have "- (1 / 10 ^ 6) < a5 - t"
    unfolding id using b1(3) b2(3) b3(3) b4(3) b5(3) s1(3) s2(3) s3(3) s4(3) s5(3) \<eta> num
    by linarith
  ultimately show ?thesis unfolding eq abs_less_iff by (intro conjI) linarith+
qed

lemma categories_100: "map cat_kWh (deriveCategories 100) = [42, 22, 18, 10, 8]"
proof -
  have "dmul 100 (dlit 0.42) = 42" "dmul 100 (dlit 0.22) = 22" "dmul 100 (dlit 0.18) = 18"
    "dmul 100 (dlit 0.10) = 10" "dmul 100 (dlit 0.08) = 8"
    by code_simp+
  then show ?thesis by (simp only: deriveCategories_values)
qed

subsection \<open>The concrete platform\<close>

lemma mset_insert_after: "mset (insert_after cmp x ys) = add_mset x (mset ys)"
  by (induction ys) simp_all

lemma set_insert_after: "set (insert_after cmp x ys) = insert x (set ys)"
  by (induction ys) auto

lemma sorted_insert_after:
  assumes "sorted_wrt (\<lambda>a b. \<not> kWh_greater b a) ys"
  shows "sorted_wrt (\<lambda>a b. \<not> kWh_greater b a) (insert_after kWh_greater x ys)"
  using assms
proof (induction ys)
  case Nil
  show ?case by simp
next
  case (Cons y ys)
  show ?case using Cons by (auto simp: set_insert_after kWh_greater_def)
qed

lemma foldl_insert_after:
  assumes "sorted_wrt (\<lambda>a b. \<not> kWh_greater b a) acc"
  shows "mset (foldl (\<lambda>acc x. insert_after kWh_greater x acc) acc xs) = mset acc + mset xs
       \<and> sorted_wrt (\<lambda>a b. \<not> kWh_greater b a) (foldl (\<lambda>acc x. insert_after kWh_greater x acc) acc xs)"
  using assms
  by (induction xs arbitrary: acc) (simp_all add: mset_insert_after sorted_insert_after)

lemma insertion_sort_sorts: "sorts_by insertion_sort kWh_greater"
  unfolding sorts_by_def insertion_sort_def using foldl_insert_after [of "[]"] by simp

lemma poly_sin_bounded: "sine_bounded poly_sin"
proof -
  have r: "repr 1" "repr (- 1)" using repr_int [of 1] repr_int [of "- 1"] by simp_all
  show ?thesis
    unfolding sine_bounded_def poly_sin_def
    by (intro allI conjI rne_le rne_ge r) simp_all
qed

lemma demo_platform_simps:
  "libm_sin demo_platform = poly_sin" "std_sort demo_platform = insertion_sort"
  "textExtent demo_platform s = 7 * int (length s)"
  by (simp_all add: demo_platform_def)

subsection \<open>The consumers and their order\<close>

lemma rne_lt:
  assumes "0 < x" "101 * x \<le> 100 * y"
  shows "rne x < rne y"
proof -
  have y: "0 < y" using assms by linarith
  have "\<bar>rne x - x\<bar> \<le> \<bar>x\<bar> / 2 ^ 53" by (rule rne_err)
  moreover have "\<bar>x\<bar> / 2 ^ 53 \<le> x / 1000" using assms(1) by simp
  ultimately have 1: "rne x \<le> x + x / 1000" by linarith
  have "\<bar>rne y - y\<bar> \<le> \<bar>y\<bar> / 2 ^ 53" by (rule rne_err)
  moreover have "\<bar>y\<bar> / 2 ^ 53 \<le> y / 1000" using y by simp
  ultimately have 2: "y - y / 1000 \<le> rne y" by linarith
  show ?thesis using 1 2 assms by linarith
qed

lemma dmul_share_lt:
  assumes "0 < T" "0 < a" "101 * a \<le> 100 * b"
  shows "dmul T a < dmul T b"
proof -
  have "T * (101 * a) \<le> T * (100 * b)" using assms by (intro mult_left_mono) simp_all
  then have "101 * (T * a) \<le> 100 * (T * b)" by (simp add: mult_ac)
  moreover have "0 < T * a" using assms by simp
  ultimately show ?thesis unfolding dmul_def by (intro rne_lt)
qed

lemma consumer_order:
  assumes "0 < T"
  shows "dmul T (dlit 0.05) < dmul T (dlit 0.10)" "dmul T (dlit 0.10) < dmul T (dlit 0.14)"
    "dmul T (dlit 0.14) < dmul T (dlit 0.15)" "dmul T (dlit 0.15) < dmul T (dlit 0.17)"
    "dmul T (dlit 0.17) < dmul T (dlit 0.22)"
  unfolding dlit_shares by (rule dmul_share_lt [OF assms]; simp)+


lemma list7: "length ys = 7 \<Longrightarrow> \<exists>y0 y1 y2 y3 y4 y5 y6. ys = [y0, y1, y2, y3, y4, y5, y6]"
  by (auto simp: numeral_eq_Suc length_Suc_conv)

lemma foldl_dadd_lower:
  fixes lo a :: int
  assumes "\<forall>v\<in>set vs. of_int lo \<le> v" and "of_int a \<le> acc"
    and "\<bar>a\<bar> + \<bar>lo\<bar> * int (length vs) \<le> 2 ^ 53"
  shows "of_int (a + lo * int (length vs)) \<le> foldl dadd acc vs"
  using assms
proof (induction vs arbitrary: acc a)
  case Nil
  then show ?case by simp
next
  case (Cons v vs)
  define p where "p = \<bar>lo\<bar> * int (length vs)"
  have n: "0 \<le> p" by (simp add: p_def)
  have p4: "\<bar>a\<bar> + (\<bar>lo\<bar> + p) \<le> 2 ^ 53"
    using Cons.prems(3) by (simp add: algebra_simps p_def)
  have ra: "\<bar>a + lo\<bar> \<le> 2 ^ 53" using p4 n by linarith
  have "of_int lo \<le> v" using Cons.prems(1) by simp
  then have 1: "of_int (a + lo) \<le> dadd acc v"
    unfolding dadd_def using Cons.prems(2) by (intro rne_ge repr_int ra) simp
  have 3: "\<bar>a + lo\<bar> + \<bar>lo\<bar> * int (length vs) \<le> 2 ^ 53"
    using p4 unfolding p_def [symmetric] by linarith
  have "\<forall>v\<in>set vs. of_int lo \<le> v" using Cons.prems(1) by simp
  from Cons.IH [OF this 1 3] show ?case by (simp add: algebra_simps)
qed

lemma total_ge_72: "72 \<le> sum_kWh (hourlyKWh (simulateFrom P rng now))"
proof -
  let ?hs = "hourlyKWh (simulateFrom P rng now)"
  have l: "length ?hs = 24" by (simp add: simulateFrom_fields)
  have "\<forall>v\<in>set ?hs. of_int 3 \<le> v" by (simp add: simulateFrom_fields hourValue_ge_3)
  from foldl_dadd_lower [OF this, of 0 0] show ?thesis by (simp add: l sum_kWh_def)
qed

lemma top_consumers_cases:
  assumes srt: "sorts_by srt kWh_greater" and T: "0 < T"
  defines "raw \<equiv> deriveConsumers T"
  shows "take 6 (srt kWh_greater raw) = [raw ! 0, raw ! 1, raw ! 6, raw ! 2, raw ! 3, raw ! 4]
       \<or> take 6 (srt kWh_greater raw) = [raw ! 0, raw ! 6, raw ! 1, raw ! 2, raw ! 3, raw ! 4]"
proof -
  define k1 where "k1 = dmul T (dlit 0.22)"
  define k2 where "k2 = dmul T (dlit 0.17)"
  define k3 where "k3 = dmul T (dlit 0.15)"
  define k4 where "k4 = dmul T (dlit 0.14)"
  define k5 where "k5 = dmul T (dlit 0.10)"
  define k6 where "k6 = dmul T (dlit 0.05)"
  note ord = consumer_order [OF T, folded k1_def k2_def k3_def k4_def k5_def k6_def]
  define c1 where "c1 = raw ! 0"
  define c2 where "c2 = raw ! 1"
  define c3 where "c3 = raw ! 2"
  define c4 where "c4 = raw ! 3"
  define c5 where "c5 = raw ! 4"
  define c6 where "c6 = raw ! 5"
  define c7 where "c7 = raw ! 6"
  note cs = c1_def c2_def c3_def c4_def c5_def c6_def c7_def
  have raw: "raw = [c1, c2, c3, c4, c5, c6, c7]"
    by (simp add: cs raw_def deriveConsumers_def consumersRaw_def)
  have kw: "kWh c1 = k1" "kWh c2 = k2" "kWh c3 = k3" "kWh c4 = k4" "kWh c5 = k5" "kWh c6 = k6"
    "kWh c7 = k2"
    by (simp_all add: cs raw_def deriveConsumers_def consumersRaw_def
        k1_def k2_def k3_def k4_def k5_def k6_def)
  have ne: "c2 \<noteq> c7"
  proof -
    have "name c2 \<noteq> name c7" by (simp add: cs raw_def deriveConsumers_def consumersRaw_def)
    then show ?thesis by auto
  qed
  define ys where "ys = srt kWh_greater raw"
  have m: "mset ys = mset raw" and so: "sorted_wrt (\<lambda>a b. \<not> kWh_greater b a) ys"
    using srt by (simp_all add: sorts_by_def ys_def)
  have len: "length ys = 7" using m [THEN arg_cong, of size] by (simp add: raw)
  have st: "set ys = {c1, c2, c3, c4, c5, c6, c7}" using m [THEN arg_cong, of set_mset] by (simp add: raw)
  have dr: "distinct raw" using ord ne by (auto simp: raw dest!: arg_cong [of _ _ kWh] simp: kw)
  have dy: "distinct ys" using dr m by (metis distinct_count_atmost_1 set_mset_mset)
  let ?f = "\<lambda>c. - kWh c"
  have "sorted (map ?f ys)"
    using so by (simp add: sorted_wrt_map kWh_greater_def not_less sorted_wrt_iff_nth_less)
  moreover have "mset (map ?f ys) = mset (map ?f raw)" using m by (metis mset_map)
  ultimately have "sort (map ?f raw) = map ?f ys" by (intro properties_for_sort)
  moreover have "sort (map ?f raw) = [- k1, - k2, - k2, - k3, - k4, - k5, - k6]"
    using ord by (simp add: raw kw)
  ultimately have e: "map ?f ys = [- k1, - k2, - k2, - k3, - k4, - k5, - k6]" by simp
  have "map kWh ys = map uminus (map ?f ys)" by (simp add: o_def)
  then have keys: "map kWh ys = [k1, k2, k2, k3, k4, k5, k6]" unfolding e by simp
  obtain y0 y1 y2 y3 y4 y5 y6 where ys: "ys = [y0, y1, y2, y3, y4, y5, y6]"
    using list7 [OF len] by blast
  have mem: "y0 \<in> set ys" "y1 \<in> set ys" "y2 \<in> set ys" "y3 \<in> set ys" "y4 \<in> set ys" "y5 \<in> set ys"
    by (simp_all add: ys)
  have kys: "kWh y0 = k1" "kWh y1 = k2" "kWh y2 = k2" "kWh y3 = k3" "kWh y4 = k4" "kWh y5 = k5"
    using keys by (simp_all add: ys)
  have "y0 = c1" using mem(1) kys(1) ord unfolding st by (auto simp: kw)
  moreover have "y3 = c3" using mem(4) kys(4) ord unfolding st by (auto simp: kw)
  moreover have "y4 = c4" using mem(5) kys(5) ord unfolding st by (auto simp: kw)
  moreover have "y5 = c5" using mem(6) kys(6) ord unfolding st by (auto simp: kw)
  moreover have "y1 = c2 \<or> y1 = c7" using mem(2) kys(2) ord unfolding st by (auto simp: kw)
  moreover have "y2 = c2 \<or> y2 = c7" using mem(3) kys(3) ord unfolding st by (auto simp: kw)
  moreover have "y1 \<noteq> y2" using dy by (simp add: ys)
  ultimately have "take 6 ys = [c1, c2, c7, c3, c4, c5] \<or> take 6 ys = [c1, c7, c2, c3, c4, c5]"
    by (auto simp: ys)
  then show ?thesis by (simp only: ys_def cs)
qed


lemma insertion_sort_consumers:
  assumes "0 < T"
  defines "raw \<equiv> deriveConsumers T"
  shows "take 6 (insertion_sort kWh_greater raw) = [raw ! 0, raw ! 1, raw ! 6, raw ! 2, raw ! 3, raw ! 4]"
  using consumer_order [OF assms(1)]
  by (simp add: raw_def insertion_sort_def deriveConsumers_def consumersRaw_def kWh_greater_def)

lemma stable_sort_consumers:
  assumes "0 < T"
  defines "raw \<equiv> deriveConsumers T"
  shows "take 6 (stable_sort_desc raw) = [raw ! 0, raw ! 1, raw ! 6, raw ! 2, raw ! 3, raw ! 4]"
  using consumer_order [OF assms(1)]
  by (simp add: raw_def stable_sort_desc_def deriveConsumers_def consumersRaw_def)

lemma sum_categories_eq: "sum_categories cs = foldl dadd 0 (map cat_kWh cs)"
  by (simp add: sum_categories_def foldl_map)

lemma deriveConsumers_eq:
  "deriveConsumers T = map (\<lambda>(n, share). \<lparr>name = n, kWh = dmul T share\<rparr>) consumersRaw"
  by (rule deriveConsumers_def)

subsection \<open>The layout\<close>

lemma paintAreas_regions:
  "regions (paintAreas c) =
    [\<lparr>left = left c + 10, rtop = rtop c + 50, right = right c - 10, bottom = rtop c + 240\<rparr>,
     \<lparr>left = left c + 10, rtop = rtop c + 250, right = right c - 10, bottom = rtop c + 510\<rparr>,
     \<lparr>left = left c + 10, rtop = rtop c + 520, right = right c - 10, bottom = rtop c + 770\<rparr>,
     \<lparr>left = left c + 10, rtop = rtop c + 780, right = right c - 10, bottom = rtop c + 1080\<rparr>,
     \<lparr>left = left c + 10, rtop = rtop c + 1090, right = right c - 10, bottom = rtop c + 1410\<rparr>,
     \<lparr>left = left c + 10, rtop = rtop c + 1420, right = right c - 10, bottom = rtop c + 1660\<rparr>]"
  by (simp add: paintAreas_def regions_def margin_def Let_def)

subsection \<open>The drawing code\<close>

text \<open>The two loops that keep a running maximum compute the maximum of the start value
  and the values seen.\<close>

lemma foldl_max_Max:
  fixes f :: "'b \<Rightarrow> 'a::linorder"
  shows "foldl (\<lambda>m x. if f x > m then f x else m) a xs = Max (insert a (f ` set xs))"
proof -
  have "foldl (\<lambda>m x. if f x > m then f x else m) a xs = fold max (map f xs) a"
    by (induction xs arbitrary: a) (auto simp: max_def)
  also have "\<dots> = Max (set (a # map f xs))" by (simp only: Max.set_eq_fold)
  finally show ?thesis by simp
qed

lemma peakOf_Max: "peakOf vs = Max (insert 0 (set vs))"
  unfolding peakOf_def using foldl_max_Max [of "\<lambda>v. v" 0 vs] by simp

lemma barMax_Max: "barMax cs = Max (insert 1 (kWh ` set cs))"
  unfolding barMax_def by (rule foldl_max_Max)

lemma barRows_rows:
  "barRows P area maxV n i y cs
     = concat (map (\<lambda>j. barRow P area maxV n (i + j) (y + 28 * int j) (cs ! j)) [0..<length cs])"
proof (induction cs arbitrary: i y)
  case Nil
  show ?case by simp
next
  case (Cons c cs)
  have "[0..<length (c # cs)] = 0 # map Suc [0..<length cs]"
    by (simp add: upt_conv_Cons map_Suc_upt del: upt_Suc)
  then show ?case by (simp add: Cons.IH o_def algebra_simps del: upt_Suc)
qed

lemma decimal_digit: "k < 10 \<Longrightarrow> decimal k = [digit_char k]"
  by (simp add: decimal.simps)

lemma rhe_nonneg: "0 \<le> y \<Longrightarrow> 0 \<le> round_half_even y"
  using rhe_cases [of y] by (auto simp: zero_le_floor)

lemma format_fixed_1:
  "\<exists>w k. k < 10
     \<and> format_fixed 1 x = wide ((if x < 0 then ''-'' else []) @ decimal w @ ''.'' @ [digit_char k])
     \<and> \<bar>(of_nat w + of_nat k / 10) - \<bar>x\<bar>\<bar> \<le> 1 / 20"
proof -
  define n where "n = nat (round_half_even (\<bar>x\<bar> * 10))"
  have n: "int n = round_half_even (\<bar>x\<bar> * 10)"
    unfolding n_def using rhe_nonneg [of "\<bar>x\<bar> * 10"] by simp
  have k: "n mod 10 < 10" by simp
  have "(of_nat (n div 10) + of_nat (n mod 10) / 10 :: rat) = of_nat n / 10"
  proof -
    have "n = 10 * (n div 10) + n mod 10" by simp
    then have "(of_nat n :: rat) = 10 * of_nat (n div 10) + of_nat (n mod 10)"
      by (metis of_nat_add of_nat_mult of_nat_numeral)
    then show ?thesis by simp
  qed
  also have "\<dots> = of_int (round_half_even (\<bar>x\<bar> * 10)) / 10"
    using n by (metis of_int_of_nat_eq)
  finally have e: "(of_nat (n div 10) + of_nat (n mod 10) / 10 :: rat)
      = of_int (round_half_even (\<bar>x\<bar> * 10)) / 10" .
  have "\<bar>of_int (round_half_even (\<bar>x\<bar> * 10)) - \<bar>x\<bar> * 10\<bar> \<le> 1 / 2" by (rule rhe_err)
  then have "\<bar>of_int (round_half_even (\<bar>x\<bar> * 10)) / 10 - \<bar>x\<bar>\<bar> \<le> 1 / 20"
    by (simp add: abs_le_iff field_simps)
  then have "\<bar>(of_nat (n div 10) + of_nat (n mod 10) / 10) - \<bar>x\<bar>\<bar> \<le> 1 / 20"
    by (simp only: e)
  moreover have "format_fixed 1 x
      = wide ((if x < 0 then ''-'' else []) @ decimal (n div 10) @ ''.'' @ [digit_char (n mod 10)])"
    unfolding format_fixed_def Let_def by (simp add: n_def [symmetric] decimal_digit)
  ultimately show ?thesis using k by blast
qed

lemma dmul_ge_1:
  assumes "72 \<le> T" "1 / 72 \<le> a"
  shows "1 \<le> dmul T a"
proof -
  have "72 * (1 / 72) \<le> T * a" using assms by (intro mult_mono) simp_all
  then have "1 \<le> T * a" by simp
  moreover have "repr 1" using repr_int [of 1] by simp
  ultimately show ?thesis unfolding dmul_def by (intro rne_ge)
qed

lemma simulated_consumers_ge_1:
  assumes "sorts_by (std_sort P) kWh_greater"
  shows "\<forall>c \<in> set (topConsumers (simulateFrom P rng now)). 1 \<le> kWh c"
    and "length (topConsumers (simulateFrom P rng now)) = 6"
    and "Max (kWh ` set (topConsumers (simulateFrom P rng now)))
           = kWh (topConsumers (simulateFrom P rng now) ! 0)"
proof -
  define T where "T = sum_kWh (hourlyKWh (simulateFrom P rng now))"
  define raw where "raw = deriveConsumers T"
  have T: "72 \<le> T" unfolding T_def by (rule total_ge_72)
  then have T0: "0 < T" by simp
  have top: "topConsumers (simulateFrom P rng now) = take 6 (std_sort P kWh_greater raw)"
    by (simp add: raw_def T_def simulateFrom_fields)
  have cases: "topConsumers (simulateFrom P rng now) = [raw ! 0, raw ! 1, raw ! 6, raw ! 2, raw ! 3, raw ! 4]
      \<or> topConsumers (simulateFrom P rng now) = [raw ! 0, raw ! 6, raw ! 1, raw ! 2, raw ! 3, raw ! 4]"
    unfolding top raw_def by (rule top_consumers_cases [OF assms T0])
  have kw: "kWh (raw ! 0) = dmul T (dlit 0.22)" "kWh (raw ! 1) = dmul T (dlit 0.17)"
    "kWh (raw ! 2) = dmul T (dlit 0.15)" "kWh (raw ! 3) = dmul T (dlit 0.14)"
    "kWh (raw ! 4) = dmul T (dlit 0.10)"
    "kWh (raw ! 6) = dmul T (dlit 0.17)" "kWh (raw ! Suc 0) = dmul T (dlit 0.17)"
    by (simp_all add: raw_def deriveConsumers_def consumersRaw_def)
  have ge: "1 \<le> dmul T (dlit 0.22)" "1 \<le> dmul T (dlit 0.17)" "1 \<le> dmul T (dlit 0.15)"
    "1 \<le> dmul T (dlit 0.14)" "1 \<le> dmul T (dlit 0.10)"
    unfolding dlit_shares by (rule dmul_ge_1 [OF T]; simp)+
  show "\<forall>c \<in> set (topConsumers (simulateFrom P rng now)). 1 \<le> kWh c"
    using cases ge by (auto simp: kw)
  show "length (topConsumers (simulateFrom P rng now)) = 6"
    using cases by auto
  show "Max (kWh ` set (topConsumers (simulateFrom P rng now)))
      = kWh (topConsumers (simulateFrom P rng now) ! 0)"
    using cases consumer_order [OF T0] by (auto simp: kw max_def)
qed

lemma ddiv_self: "0 < k \<Longrightarrow> ddiv k k = 1"
  by (simp add: ddiv_def rne_small_ints)

lemma full_bar: "double_to_int (dmul (int_to_double 200) 1) = 200"
  by code_simp

lemma Max_insert_below:
  fixes S :: "'a::linorder set"
  assumes "finite S" "\<exists>v \<in> S. a \<le> v"
  shows "Max (insert a S) = Max S"
proof -
  obtain v where v: "v \<in> S" "a \<le> v" using assms(2) by blast
  then have "S \<noteq> {}" by blast
  moreover have "a \<le> Max S" using v assms(1) by (meson Max_ge order_trans)
  ultimately show ?thesis using assms(1) by (simp add: max_def)
qed

lemma checklistAlerts_oks:
  "map ok (checklistAlerts d) =
     [\<not> ddiv (foldl dadd 0 (take 6 (hourlyKWh d))) 6 > dmul (ddiv (foldl dadd 0 (hourlyKWh d)) 24) 0.75,
      \<not> Max (insert 0 (set (hourlyKWh d))) > dmul (ddiv (foldl dadd 0 (hourlyKWh d)) 24) 2,
      length (hourlyKWh d) = 24, True, True]"
  by (simp add: checklistAlerts_def Let_def sum_kWh_def peakOf_Max nightAvgOf_def)

lemma drawAlerts_5:
  "length as = 5 \<Longrightarrow> drawAlerts area y as
     = concat (map (\<lambda>i. drawAlert area (y + 26 * int i) (as ! i)) [0..<5])"
  by (auto simp: numeral_eq_Suc length_Suc_conv add.commute)


section \<open>The claims\<close>

text \<open>
  C1. For every 64-bit state \<open>s\<close>, one call of \<^verbatim>\<open>next()\<close> sets the state to
  \<open>(s * 6364136223846793005 + 1) mod 2\<^sup>6\<^sup>4\<close> and returns the new state;
  \<^verbatim>\<open>nextDouble01()\<close> returns \<open>(next() >> 11) / 2\<^sup>5\<^sup>3\<close>, computed without rounding error,
  a value in \<open>[0, 1)\<close>, and leaves the generator as \<^verbatim>\<open>next()\<close> does; and from any seed
  \<open>S0\<close> the first \<open>N\<close> results of \<^verbatim>\<open>next()\<close> are the reference sequence of the recurrence
  under arithmetic modulo \<open>2\<^sup>6\<^sup>4\<close>.
\<close>

theorem C1_generator_recurrence:
  "unat (fst (rng_next rng)) = (unat (state rng) * 6364136223846793005 + 1) mod 2 ^ 64
   \<and> state (snd (rng_next rng)) = fst (rng_next rng)
   \<and> fst (nextDouble01 rng) = of_int (uint (fst (rng_next rng)) div 2 ^ 11) / 2 ^ 53
   \<and> snd (nextDouble01 rng) = snd (rng_next rng)
   \<and> 0 \<le> fst (nextDouble01 rng) \<and> fst (nextDouble01 rng) < 1
   \<and> state (SeededRNG_new S0) = S0
   \<and> map unat (next_outputs N (SeededRNG_new S0)) = reference_sequence (unat S0) N"
proof -
  have "unat (fst (rng_next rng)) = (unat (state rng) * 6364136223846793005 + 1) mod 2 ^ 64"
    by (simp only: rng_next_unat lcg_recurrence_def)
  moreover have "fst (nextDouble01 rng) = of_int (uint (fst (rng_next rng)) div 2 ^ 11) / 2 ^ 53"
    by (simp only: nextDouble01_fst uint_drop_bit_11)
  moreover have "map unat (next_outputs N (SeededRNG_new S0)) = reference_sequence (unat S0) N"
    by (simp only: next_outputs_reference SeededRNG_new_state)
  ultimately show ?thesis
    using rng_next_snd nextDouble01_snd nextDouble01_range SeededRNG_new_state by blast
qed



text \<open>
  C3. Two runs of the simulation at the same reference date give the same day: the
  handler of \<^verbatim>\<open>WM_CREATE\<close> stores equal values of \<^verbatim>\<open>g_day\<close> whatever the state before the
  call was (the generator is built anew from the seed in every call), every field is
  equal, the hourly list has 24 entries and the category list 5; all fields but the date
  are the same for any two dates; and the same holds of the body of the simulator from
  any one seed.
\<close>

theorem C3_same_seed_same_day:
  assumes "clock w1 = clock w2"
  shows "g_day (WM_CREATE P w1) = g_day (WM_CREATE P w2)
       \<and> g_day (WM_CREATE P (WM_CREATE P w1)) = g_day (WM_CREATE P w1)
       \<and> (let d1 = simulateEnergyDay P (clock w1); d2 = simulateEnergyDay P (clock w2)
          in buildingName d1 = buildingName d2 \<and> date d1 = date d2
           \<and> hourlyKWh d1 = hourlyKWh d2 \<and> length (hourlyKWh d1) = 24
           \<and> categoryBreakdown d1 = categoryBreakdown d2 \<and> length (categoryBreakdown d1) = 5
           \<and> topConsumers d1 = topConsumers d2
           \<and> priceCZKPerKWh d1 = priceCZKPerKWh d2)
       \<and> simulateEnergyDay P now = simulateFrom P (SeededRNG_new 0xC0FFEE) now
       \<and> simulateFrom P (SeededRNG_new S) now' = (simulateFrom P (SeededRNG_new S) now) \<lparr>date := now'\<rparr>"
proof -
  have len: "length (hourlyKWh (simulateEnergyDay P (clock w2))) = 24"
    "length (categoryBreakdown (simulateEnergyDay P (clock w2))) = 5"
    by (simp_all add: simulateEnergyDay_def simulateFrom_fields deriveCategories_def cats_def)
  have "simulateFrom P (SeededRNG_new S) now' = (simulateFrom P (SeededRNG_new S) now) \<lparr>date := now'\<rparr>"
    by (simp add: simulateFrom_def split_beta Let_def)
  then show ?thesis
    using assms len by (simp add: WM_CREATE_def simulateEnergyDay_def Let_def)
qed

theorem C3_same_seed_same_day_witness:
  "clock demo_world = clock (WM_CREATE demo_platform demo_world)
   \<and> g_day demo_world \<noteq> g_day (WM_CREATE demo_platform demo_world)
   \<and> g_day (WM_CREATE demo_platform demo_world)
       = g_day (WM_CREATE demo_platform (WM_CREATE demo_platform demo_world))"
proof -
  have c: "clock demo_world = clock (WM_CREATE demo_platform demo_world)"
    by (simp add: WM_CREATE_def)
  have "hourlyKWh (g_day demo_world) = []"
    by (simp add: demo_world_def blank_day_def)
  moreover have "length (hourlyKWh (g_day (WM_CREATE demo_platform demo_world))) = 24"
    by (simp add: WM_CREATE_def simulateEnergyDay_def simulateFrom_fields(1))
  ultimately have "g_day demo_world \<noteq> g_day (WM_CREATE demo_platform demo_world)" by auto
  moreover have "g_day (WM_CREATE demo_platform demo_world)
      = g_day (WM_CREATE demo_platform (WM_CREATE demo_platform demo_world))"
    using C3_same_seed_same_day [OF c, of demo_platform] by (rule conjunct1)
  ultimately show ?thesis using c by (intro conjI)
qed

text \<open>
  C4. For every simulated day (from any seed and for any sine), \<^verbatim>\<open>std::sort\<close> running
  its insertion sort on the 7 entries: \<open>topConsumers\<close> has exactly 6 entries and is the
  first 6 of the raw list (shares 0.22, 0.17, 0.15, 0.14, 0.10, 0.05, 0.17 of the daily
  total, the sum of the hourly values) sorted by descending kWh with ties in the order of
  the raw list. These are the entries other than the one of share 0.05, whose value is
  below all of them, in non-increasing order of kWh; the two entries of share 0.17 have
  equal values and stand second and third in the order of the raw list.
\<close>

theorem C4_top_consumers:
  assumes "\<forall>xs. length xs < 16 \<longrightarrow> std_sort P kWh_greater xs = insertion_sort kWh_greater xs"
    and "d = simulateEnergyDay P now \<or> d = simulateFrom P rng now"
  shows "(let T = foldl dadd 0 (hourlyKWh d);
              raw = map (\<lambda>(n, share). \<lparr>name = n, kWh = dmul T share\<rparr>) consumersRaw;
              top = topConsumers d
          in length raw = 7
           \<and> map kWh raw = map (\<lambda>share. dmul T share) (map snd consumersRaw)
           \<and> length top = 6
           \<and> top = take 6 (stable_sort_desc raw)
           \<and> top = [raw ! 0, raw ! 1, raw ! 6, raw ! 2, raw ! 3, raw ! 4]
           \<and> sorted_wrt (\<lambda>a b. kWh b \<le> kWh a) top
           \<and> kWh (raw ! 1) = kWh (raw ! 6)
           \<and> (\<forall>c \<in> set top. kWh (raw ! 5) < kWh c)
           \<and> map name top
               = [''Chiller / tepeln'' @ [CHR 0xC3, CHR 0xA9] @ '' '' @ [CHR 0xC4, CHR 0x8D] @ ''erpadlo'',
                ''VZT jednotky'',
                ''Ostatn'' @ [CHR 0xC3, CHR 0xAD],
                ''Osv'' @ [CHR 0xC4, CHR 0x9B] @ ''tlen'' @ [CHR 0xC3, CHR 0xAD] @ '' open-space'',
                ''Serverovna UPS'',
                ''EV nab'' @ [CHR 0xC3, CHR 0xAD] @ ''jen'' @ [CHR 0xC3, CHR 0xAD]])
       \<and> map snd consumersRaw
           = [dlit 0.22, dlit 0.17, dlit 0.15, dlit 0.14, dlit 0.10, dlit 0.05, dlit 0.17]"
proof -
  obtain r where d: "d = simulateFrom P r now"
    using assms(2) by (auto simp: simulateEnergyDay_def)
  define T where "T = foldl dadd 0 (hourlyKWh d)"
  define raw where "raw = map (\<lambda>(n, share). \<lparr>name = n, kWh = dmul T share\<rparr>) consumersRaw"
  define top where "top = topConsumers d"
  have Ts: "T = sum_kWh (hourlyKWh d)" by (simp add: T_def sum_kWh_def)
  have rd: "raw = deriveConsumers T" by (simp add: raw_def deriveConsumers_eq)
  have T: "0 < T" using total_ge_72 [of P r now] by (simp add: Ts d)
  note ord = consumer_order [OF T]
  have l: "length raw = 7" by (simp add: raw_def consumersRaw_def)
  have "top = take 6 (std_sort P kWh_greater raw)"
    by (simp add: top_def rd Ts d simulateFrom_fields)
  also have "std_sort P kWh_greater raw = insertion_sort kWh_greater raw"
    using assms(1) l by simp
  finally have top: "top = [raw ! 0, raw ! 1, raw ! 6, raw ! 2, raw ! 3, raw ! 4]"
    unfolding rd by (simp only: insertion_sort_consumers [OF T])
  have kw: "kWh (raw ! 0) = dmul T (dlit 0.22)" "kWh (raw ! 1) = dmul T (dlit 0.17)"
    "kWh (raw ! 2) = dmul T (dlit 0.15)" "kWh (raw ! 3) = dmul T (dlit 0.14)"
    "kWh (raw ! 4) = dmul T (dlit 0.10)" "kWh (raw ! 5) = dmul T (dlit 0.05)"
    "kWh (raw ! 6) = dmul T (dlit 0.17)" "kWh (raw ! Suc 0) = dmul T (dlit 0.17)"
    by (simp_all add: raw_def consumersRaw_def)
  have 1: "map kWh raw = map (\<lambda>share. dmul T share) (map snd consumersRaw)"
    "map snd consumersRaw = [dlit 0.22, dlit 0.17, dlit 0.15, dlit 0.14, dlit 0.10, dlit 0.05, dlit 0.17]"
    by (simp_all add: raw_def consumersRaw_def)
  have 2: "length top = 6" "sorted_wrt (\<lambda>a b. kWh b \<le> kWh a) top"
    "\<forall>c \<in> set top. kWh (raw ! 5) < kWh c"
    using ord by (auto simp: top kw)
  have 3: "take 6 (stable_sort_desc raw) = [raw ! 0, raw ! 1, raw ! 6, raw ! 2, raw ! 3, raw ! 4]"
    unfolding rd by (rule stable_sort_consumers [OF T])
  have 4: "top = take 6 (stable_sort_desc raw)" by (simp only: top 3)
  have 5: "map name top
               = [''Chiller / tepeln'' @ [CHR 0xC3, CHR 0xA9] @ '' '' @ [CHR 0xC4, CHR 0x8D] @ ''erpadlo'',
                ''VZT jednotky'',
                ''Ostatn'' @ [CHR 0xC3, CHR 0xAD],
                ''Osv'' @ [CHR 0xC4, CHR 0x9B] @ ''tlen'' @ [CHR 0xC3, CHR 0xAD] @ '' open-space'',
                ''Serverovna UPS'',
                ''EV nab'' @ [CHR 0xC3, CHR 0xAD] @ ''jen'' @ [CHR 0xC3, CHR 0xAD]]"
    unfolding top by (simp add: raw_def consumersRaw_def)
  show ?thesis
    unfolding Let_def T_def [symmetric] raw_def [symmetric] top_def [symmetric]
    using l 1 2 4 5 top kw(2,7) by simp
qed

theorem C4_top_consumers_witness:
  "std_sort demo_platform kWh_greater = insertion_sort kWh_greater
   \<and> length (topConsumers (simulateEnergyDay demo_platform demo_date)) = 6
   \<and> name (topConsumers (simulateEnergyDay demo_platform demo_date) ! 1) = ''VZT jednotky''
   \<and> name (topConsumers (simulateEnergyDay demo_platform demo_date) ! 2)
       = ''Ostatn'' @ [CHR 0xC3, CHR 0xAD]
   \<and> kWh (topConsumers (simulateEnergyDay demo_platform demo_date) ! 1)
       = kWh (topConsumers (simulateEnergyDay demo_platform demo_date) ! 2)
   \<and> sorted_wrt (\<lambda>a b. kWh b \<le> kWh a) (topConsumers (simulateEnergyDay demo_platform demo_date))"
proof -
  define top where "top = topConsumers (simulateEnergyDay demo_platform demo_date)"
  define raw where "raw = map (\<lambda>(n, share). \<lparr>name = n,
      kWh = dmul (foldl dadd 0 (hourlyKWh (simulateEnergyDay demo_platform demo_date))) share\<rparr>)
      consumersRaw"
  have s: "\<forall>xs. length xs < 16
      \<longrightarrow> std_sort demo_platform kWh_greater xs = insertion_sort kWh_greater xs"
    by (simp add: demo_platform_simps)
  note c = C4_top_consumers [OF s, of "simulateEnergyDay demo_platform demo_date" demo_date,
      unfolded Let_def, folded raw_def, folded top_def]
  have t: "top = [raw ! 0, raw ! 1, raw ! 6, raw ! 2, raw ! 3, raw ! 4]" using c by blast
  have k: "kWh (raw ! 1) = kWh (raw ! 6)" using c by blast
  have n: "name (raw ! 1) = ''VZT jednotky''" "name (raw ! 6) = ''Ostatn'' @ [CHR 0xC3, CHR 0xAD]"
    by (simp_all add: raw_def consumersRaw_def)
  have e: "top ! 1 = raw ! 1" "top ! 2 = raw ! 6" by (simp_all add: t)
  have "length top = 6" "sorted_wrt (\<lambda>a b. kWh b \<le> kWh a) top"
    using c by blast+
  moreover have "std_sort demo_platform kWh_greater = insertion_sort kWh_greater"
    by (simp add: demo_platform_simps)
  ultimately show ?thesis
    unfolding top_def [symmetric] e using n k by (intro conjI)
qed

text \<open>
  C5. Every day the simulator produces has exactly 24 hourly values, each at least 3.0;
  this holds from any seed, for any sine and any sort routine.
\<close>

theorem C5_hourly_length_and_floor:
  "length (hourlyKWh (simulateEnergyDay P now)) = 24
   \<and> (\<forall>v \<in> set (hourlyKWh (simulateEnergyDay P now)). 3 \<le> v)
   \<and> length (hourlyKWh (simulateFrom P rng now)) = 24
   \<and> (\<forall>v \<in> set (hourlyKWh (simulateFrom P rng now)). 3 \<le> v)"
  by (simp add: simulateEnergyDay_def simulateFrom_fields hourValue_ge_3)

theorem C5_hourly_length_and_floor_witness:
  "length (hourlyKWh (simulateEnergyDay demo_platform demo_date)) = 24
   \<and> 3 \<le> hourlyKWh (simulateEnergyDay demo_platform demo_date) ! 13"
  using C5_hourly_length_and_floor [of demo_platform demo_date] by simp

text \<open>
  C6. The simulator derives exactly 5 categories, in the declared order, each with
  \<open>kWh = total * share\<close> for the shares 0.42, 0.22, 0.18, 0.10, 0.08 (the doubles nearest
  to them, the product rounded), where the total is the sum of the 24 hourly values,
  added up in order from 0.0; the sum of the category values, added up in the same way,
  differs from that sum of the hourly values by less than \<open>10\<^sup>-\<^sup>6\<close>; and the shares applied
  to a total of 100 give exactly 42, 22, 18, 10, 8. The bound on the difference needs the
  total to be bounded, hence a sine with values in \<open>[-1, 1]\<close>; it holds from any seed.
\<close>

theorem C6_category_breakdown:
  assumes "sine_bounded (libm_sin P)"
    and "d = simulateEnergyDay P now \<or> d = simulateFrom P rng now"
  shows "length (categoryBreakdown d) = 5
       \<and> map cat_name (categoryBreakdown d)
           = [''HVAC (chlazen'' @ [CHR 0xC3, CHR 0xAD] @ '' + VZT)'',
              ''Osv'' @ [CHR 0xC4, CHR 0x9B] @ ''tlen'' @ [CHR 0xC3, CHR 0xAD],
              ''IT + serverovna'',
              ''Z'' @ [CHR 0xC3, CHR 0xA1] @ ''suvky / kuchy'' @ [CHR 0xC5, CHR 0x88] @ ''ky'',
              ''Ostatn'' @ [CHR 0xC3, CHR 0xAD]]
       \<and> map snd cats = [dlit 0.42, dlit 0.22, dlit 0.18, dlit 0.10, dlit 0.08]
       \<and> map cat_kWh (categoryBreakdown d)
           = map (\<lambda>share. dmul (foldl dadd 0 (hourlyKWh d)) share) (map snd cats)
       \<and> \<bar>foldl dadd 0 (map cat_kWh (categoryBreakdown d)) - foldl dadd 0 (hourlyKWh d)\<bar>
           < 1 / 10 ^ 6
       \<and> length (hourlyKWh d) = 24
       \<and> 72 \<le> foldl dadd 0 (hourlyKWh d)
       \<and> map (\<lambda>share. dmul 100 share) (map snd cats) = [42, 22, 18, 10, 8]
       \<and> map cat_kWh (deriveCategories 100) = [42, 22, 18, 10, 8]"
proof -
  obtain r where d: "d = simulateFrom P r now"
    using assms(2) by (auto simp: simulateEnergyDay_def)
  define t where "t = foldl dadd 0 (hourlyKWh d)"
  have ts: "t = sum_kWh (hourlyKWh d)" by (simp add: t_def sum_kWh_def)
  have c: "categoryBreakdown d = deriveCategories t" by (simp add: ts d simulateFrom_fields)
  have t: "0 \<le> t" "t \<le> 1000" "72 \<le> t"
    using total_bounds [OF assms(1), of r now] by (simp_all add: ts d)
  have "\<bar>sum_categories (deriveCategories t) - t\<bar> < 1 / 10 ^ 6"
    by (rule categories_sum_close [OF t(1,2)])
  then have 1: "\<bar>foldl dadd 0 (map cat_kWh (deriveCategories t)) - t\<bar> < 1 / 10 ^ 6"
    by (simp only: sum_categories_eq)
  have 2: "length (deriveCategories t) = 5"
    "map snd cats = [dlit 0.42, dlit 0.22, dlit 0.18, dlit 0.10, dlit 0.08]"
    "map cat_name (deriveCategories t)
           = [''HVAC (chlazen'' @ [CHR 0xC3, CHR 0xAD] @ '' + VZT)'',
              ''Osv'' @ [CHR 0xC4, CHR 0x9B] @ ''tlen'' @ [CHR 0xC3, CHR 0xAD],
              ''IT + serverovna'',
              ''Z'' @ [CHR 0xC3, CHR 0xA1] @ ''suvky / kuchy'' @ [CHR 0xC5, CHR 0x88] @ ''ky'',
              ''Ostatn'' @ [CHR 0xC3, CHR 0xAD]]"
    by (simp_all add: deriveCategories_def cats_def)
  have 3: "map cat_kWh (deriveCategories t) = map (\<lambda>share. dmul t share) (map snd cats)"
    by (simp add: deriveCategories_def cats_def)
  have 4: "map (\<lambda>share. dmul 100 share) (map snd cats) = [42, 22, 18, 10, 8]"
    using categories_100 by (simp add: deriveCategories_def cats_def)
  have 5: "length (hourlyKWh d) = 24" by (simp add: d simulateFrom_fields)
  show ?thesis
    unfolding c t_def [symmetric] using 1 2 3 4 5 t(3) categories_100 by (intro conjI)
qed

theorem C6_category_breakdown_witness:
  "sine_bounded (libm_sin demo_platform)
   \<and> length (categoryBreakdown (simulateEnergyDay demo_platform demo_date)) = 5
   \<and> \<bar>foldl dadd 0 (map cat_kWh (categoryBreakdown (simulateEnergyDay demo_platform demo_date)))
        - foldl dadd 0 (hourlyKWh (simulateEnergyDay demo_platform demo_date))\<bar> < 1 / 10 ^ 6"
proof -
  have s: "sine_bounded (libm_sin demo_platform)"
    by (simp add: demo_platform_simps poly_sin_bounded)
  show ?thesis
    using s C6_category_breakdown [OF s, of "simulateEnergyDay demo_platform demo_date" demo_date]
    by blast
qed

text \<open>
  C7. For every client rectangle the paint code produces six regions (header, line, bar,
  pie, table, checklist): each region after the first starts exactly \<open>margin\<close> below the
  bottom of the previous one; the heights are 190, 260, 250, 300, 320 and 240; every
  region spans the width of the canvas less \<open>2 * margin\<close>; and the regions are ordered
  top to bottom with no two of them overlapping. The margin is the constant 10 of the
  source.
\<close>

theorem C7_layout_regions:
  "(let a = paintAreas client in
      map height (regions a) = [190, 260, 250, 300, 320, 240]
    \<and> map width (regions a) = replicate 6 (width client - 2 * margin)
    \<and> rtop (lineArea a) = bottom (headerArea a) + margin
    \<and> rtop (barArea a) = bottom (lineArea a) + margin
    \<and> rtop (pieArea a) = bottom (barArea a) + margin
    \<and> rtop (tableArea a) = bottom (pieArea a) + margin
    \<and> rtop (checkArea a) = bottom (tableArea a) + margin
    \<and> sorted_wrt (\<lambda>r s. bottom r \<le> rtop s \<and> \<not> overlap r s) (regions a))
   \<and> margin = 10"
proof -
  have r: "regions (paintAreas client) =
      [headerArea (paintAreas client), lineArea (paintAreas client), barArea (paintAreas client),
       pieArea (paintAreas client), tableArea (paintAreas client), checkArea (paintAreas client)]"
    by (simp add: regions_def)
  note e = paintAreas_regions [of client, unfolded r]
  show ?thesis
    unfolding Let_def r using e
    by (simp add: height_def width_def overlap_def margin_def numeral_eq_Suc)
qed

text \<open>
  C8. For every day the checklist derives exactly 5 alerts. Alert 1 (the night load) has
  \<open>ok = false\<close> exactly when the sum of the first six hourly values divided by 6 exceeds
  0.75 times the daily average (the sum of all hourly values divided by 24), in double
  arithmetic. Alert 2 has \<open>ok = false\<close> exactly when the peak exceeds 2.0 times that
  average; the peak is the maximum of 0 and the hourly values, hence \<open>max(hourlyKWh)\<close>
  whenever some hourly value is non-negative (kWh values are non-negative). Alert 3 has
  \<open>ok = true\<close> exactly when there are 24 hourly values; alerts 4 and 5 always have
  \<open>ok = true\<close>. The alerts are drawn 26 pixels apart, each as a box with a glyph and its
  text: a failed alert with the two strokes of a cross and bold text, a passing one with
  a check mark and regular text.
\<close>

theorem C8_checklist:
  "(let hourly = hourlyKWh d;
        avg = ddiv (foldl dadd 0 hourly) 24;
        alerts = checklistAlerts d
    in length alerts = 5
     \<and> alert_text (alerts ! 0)
         = wide ''No'' @ [0x10D] @ wide ''n'' @ [0xED] @ wide '' z'' @ [0xE1] @ wide ''t''
             @ [0x11B, 0x17E] @ wide '' v norm'' @ [0x11B]
     \<and> (\<not> ok (alerts ! 0) \<longleftrightarrow> ddiv (foldl dadd 0 (take 6 hourly)) 6 > dmul avg 0.75)
     \<and> (\<not> ok (alerts ! 1) \<longleftrightarrow> Max (insert 0 (set hourly)) > dmul avg 2)
     \<and> ((\<exists>v \<in> set hourly. 0 \<le> v) \<longrightarrow> (\<not> ok (alerts ! 1) \<longleftrightarrow> Max (set hourly) > dmul avg 2))
     \<and> (ok (alerts ! 2) \<longleftrightarrow> length hourly = 24)
     \<and> ok (alerts ! 3) \<and> ok (alerts ! 4)
     \<and> DrawChecklist area d
         = sectionHead area (wide ''Checklist / Alerts'')
           @ concat (map (\<lambda>i. drawAlert area (rtop area + 60 + 26 * int i) (alerts ! i)) [0..<5]))
   \<and> drawAlert area y a
       = [Rectangle (left area + 10) (y + 2) (left area + 22) (y + 14), SelectPen 2 (0, 0, 0)]
         @ (if ok a
            then [MoveToEx (left area + 12) (y + 9), LineTo (left area + 15) (y + 13),
                  LineTo (left area + 21) (y + 3)]
            else [MoveToEx (left area + 12) (y + 3), LineTo (left area + 21) (y + 13),
                  MoveToEx (left area + 21) (y + 3), LineTo (left area + 12) (y + 13)])
         @ [RestorePen, DrawTextW (left area + 30) (y + 2) (alert_text a) 13 (\<not> ok a)]"
proof -
  define alerts where "alerts = checklistAlerts d"
  define hourly where "hourly = hourlyKWh d"
  define avg where "avg = ddiv (foldl dadd 0 hourly) 24"
  have l: "length alerts = 5" by (simp add: alerts_def checklistAlerts_def Let_def)
  have t: "alert_text (alerts ! 0)
         = wide ''No'' @ [0x10D] @ wide ''n'' @ [0xED] @ wide '' z'' @ [0xE1] @ wide ''t''
             @ [0x11B, 0x17E] @ wide '' v norm'' @ [0x11B]"
    by (simp add: alerts_def checklistAlerts_def Let_def)
  have "map ok alerts ! 0 = ok (alerts ! 0)" "map ok alerts ! 1 = ok (alerts ! 1)"
    "map ok alerts ! 2 = ok (alerts ! 2)" "map ok alerts ! 3 = ok (alerts ! 3)"
    "map ok alerts ! 4 = ok (alerts ! 4)"
    using l by simp_all
  then have o: "ok (alerts ! 0) \<longleftrightarrow> \<not> ddiv (foldl dadd 0 (take 6 hourly)) 6 > dmul avg 0.75"
    "ok (alerts ! 1) \<longleftrightarrow> \<not> Max (insert 0 (set hourly)) > dmul avg 2"
    "ok (alerts ! 2) \<longleftrightarrow> length hourly = 24" "ok (alerts ! 3)" "ok (alerts ! 4)"
    unfolding alerts_def checklistAlerts_oks hourly_def avg_def by simp_all
  have m: "(\<exists>v \<in> set hourly. 0 \<le> v) \<longrightarrow> Max (insert 0 (set hourly)) = Max (set hourly)"
    using Max_insert_below [of "set hourly" 0] by simp
  have dr: "DrawChecklist area d
         = sectionHead area (wide ''Checklist / Alerts'')
           @ concat (map (\<lambda>i. drawAlert area (rtop area + 60 + 26 * int i) (alerts ! i)) [0..<5])"
    unfolding DrawChecklist_def alerts_def [symmetric] by (simp only: drawAlerts_5 [OF l])
  have da: "drawAlert area y a
       = [Rectangle (left area + 10) (y + 2) (left area + 22) (y + 14), SelectPen 2 (0, 0, 0)]
         @ (if ok a
            then [MoveToEx (left area + 12) (y + 9), LineTo (left area + 15) (y + 13),
                  LineTo (left area + 21) (y + 3)]
            else [MoveToEx (left area + 12) (y + 3), LineTo (left area + 21) (y + 13),
                  MoveToEx (left area + 21) (y + 3), LineTo (left area + 12) (y + 13)])
         @ [RestorePen, DrawTextW (left area + 30) (y + 2) (alert_text a) 13 (\<not> ok a)]"
    by (simp add: drawAlert_def checkMark_def crossMark_def)
  show ?thesis
    unfolding Let_def hourly_def [symmetric] avg_def [symmetric] alerts_def [symmetric]
    using l t o m dr da by simp
qed

theorem C8_checklist_witness:
  "30 \<in> set (hourlyKWh night_heavy_day) \<and> (0::rat) \<le> 30
   \<and> ddiv (foldl dadd 0 (take 6 (hourlyKWh night_heavy_day))) 6 = 30
   \<and> dmul (ddiv (foldl dadd 0 (hourlyKWh night_heavy_day)) 24) 0.75 = 10.875
   \<and> Max (set (hourlyKWh night_heavy_day)) = 100
   \<and> dmul (ddiv (foldl dadd 0 (hourlyKWh night_heavy_day)) 24) 2 = 29
   \<and> map ok (checklistAlerts night_heavy_day) = [False, False, True, True, True]
   \<and> take 8 (drop 6 (DrawChecklist demo_area night_heavy_day))
       = [Rectangle 20 1202 32 1214, SelectPen 2 (0, 0, 0),
          MoveToEx 22 1203, LineTo 31 1213, MoveToEx 31 1203, LineTo 22 1213, RestorePen,
          DrawTextW 40 1202 (alert_text (checklistAlerts night_heavy_day ! 0)) 13 True]"
proof -
  have h: "30 \<in> set (hourlyKWh night_heavy_day)" "hourlyKWh night_heavy_day \<noteq> []"
    by (simp_all add: night_heavy_day_def blank_day_def)
  have v: "ddiv (foldl dadd 0 (take 6 (hourlyKWh night_heavy_day))) 6 = 30"
    "dmul (ddiv (foldl dadd 0 (hourlyKWh night_heavy_day)) 24) 0.75 = 10.875"
    "dmul (ddiv (foldl dadd 0 (hourlyKWh night_heavy_day)) 24) 2 = 29"
    by code_simp+
  have m: "Max (set (hourlyKWh night_heavy_day)) = 100"
    by (simp add: night_heavy_day_def blank_day_def)
  have e: "\<exists>v \<in> set (hourlyKWh night_heavy_day). 0 \<le> v" by (rule bexI [OF _ h(1)]) simp
  note c = C8_checklist [of night_heavy_day demo_area 1200 "checklistAlerts night_heavy_day ! 0",
      unfolded Let_def]
  have l: "length (checklistAlerts night_heavy_day) = 5" using c by blast
  have o0: "\<not> ok (checklistAlerts night_heavy_day ! 0)" using c v by simp
  have o1: "\<not> ok (checklistAlerts night_heavy_day ! 1)" using c e v m by simp
  have o2: "ok (checklistAlerts night_heavy_day ! 2)" using c
    by (simp add: night_heavy_day_def blank_day_def)
  have o3: "ok (checklistAlerts night_heavy_day ! 3)" "ok (checklistAlerts night_heavy_day ! 4)"
    using c by blast+
  have oks: "map ok (checklistAlerts night_heavy_day) = [False, False, True, True, True]"
    using l o0 o1 o2 o3 by (auto simp: numeral_eq_Suc length_Suc_conv)
  have d: "DrawChecklist demo_area night_heavy_day
         = sectionHead demo_area (wide ''Checklist / Alerts'')
           @ concat (map (\<lambda>i. drawAlert demo_area (rtop demo_area + 60 + 26 * int i)
               (checklistAlerts night_heavy_day ! i)) [0..<5])"
    using c by blast
  have a: "drawAlert demo_area 1200 (checklistAlerts night_heavy_day ! 0)
      = [Rectangle 20 1202 32 1214, SelectPen 2 (0, 0, 0),
          MoveToEx 22 1203, LineTo 31 1213, MoveToEx 31 1203, LineTo 22 1213, RestorePen,
          DrawTextW 40 1202 (alert_text (checklistAlerts night_heavy_day ! 0)) 13 True]"
    using c o0 by (simp add: demo_area_def)
  have "take 8 (drop 6 (DrawChecklist demo_area night_heavy_day))
      = drawAlert demo_area 1200 (checklistAlerts night_heavy_day ! 0)"
    unfolding d by (simp add: sectionHead_def upt_conv_Cons demo_area_def a [unfolded demo_area_def, simplified]
        del: upt_Suc)
  then show ?thesis using h v m oks a by simp
qed

text \<open>
  C9. The renderer draws the consumers of the day that \<^verbatim>\<open>WM_CREATE\<close> stored, a simulated
  day (from any seed, for any sine and any \<^verbatim>\<open>std::sort\<close> that meets its contract). For
  it the bar chart draws, under the title and its rule, one row for each of the 6
  consumers, 28 pixels apart: the name on the left, the outline of the bar, the filled
  part, the value, and a separator under every row but the last. The filled width is the
  width of the bar times \<open>kWh / max\<close>, truncated to pixels, where \<open>max\<close> is the maximum kWh
  among the listed consumers: the running maximum of the code starts at 1.0, and every
  listed consumer has at least 1 kWh. The value is printed with one decimal (within 0.05
  of the kWh) and ends 10 pixels left of the right edge of the area. For a day \<open>e\<close>
  whatever, the divisor is the larger of 1.0 and the maximum.
\<close>

theorem C9_bar_rows:
  assumes "sorts_by (std_sort P) kWh_greater"
    and "d = g_day (WM_CREATE P w) \<or> d = simulateEnergyDay P now \<or> d = simulateFrom P rng now"
  shows "(let cs = topConsumers d;
              barW = right area - (left area + 170) - 10;
              maxK = Max (kWh ` set cs)
          in length cs = 6
           \<and> (\<forall>c \<in> set cs. 1 \<le> kWh c)
           \<and> barMax cs = maxK
           \<and> (\<forall>c \<in> set cs. barFill barW (barMax cs) c = claimed_fill barW cs c)
           \<and> DrawBarChart P area d
               = [FillRect area WHITE_BRUSH,
                  DrawTextW (left area + 10) (rtop area + 10)
                    (wide ''Top spot'' @ [0x159] @ wide ''ebi'' @ [0x10D] @ wide ''e (kWh/den)'') 18 True,
                  SelectPen 1 (0, 0, 0),
                  MoveToEx (left area + 10) (rtop area + 36),
                  LineTo (right area - 10) (rtop area + 36),
                  RestorePen]
                 @ concat (map (\<lambda>i. barRow P area maxK 6 i (rtop area + 60 + 28 * int i) (cs ! i))
                             [0..<6]))
       \<and> (let barX = left area + 170;
               barW = right area - barX - 10;
               valStr = format_fixed 1 (kWh it)
           in barRow P area m n i y it
                = [DrawTextW (left area + 10) (y + 2) (widen (name it)) 12 False,
                   Rectangle barX y (barX + barW) (y + 18),
                   SelectBrush BLACK_BRUSH,
                   FillRect \<lparr>left = barX, rtop = y,
                             right = barX + double_to_int (dmul (int_to_double barW) (ddiv (kWh it) m)),
                             bottom = y + 18\<rparr> BLACK_BRUSH,
                   RestoreBrush,
                   TextOutW (right area - 10 - textExtent P valStr) (y + 2) valStr]
                  @ (if i < n - 1
                     then [SelectPen 1 (210, 210, 210), MoveToEx (left area + 10) (y + 26),
                           LineTo (right area - 10) (y + 26), RestorePen]
                     else [])
            \<and> (\<exists>w k. k < 10
                  \<and> valStr = wide ((if kWh it < 0 then ''-'' else []) @ decimal w @ ''.'' @ [digit_char k])
                  \<and> \<bar>(of_nat w + of_nat k / 10) - \<bar>kWh it\<bar>\<bar> \<le> 1 / 20))
       \<and> (let es = topConsumers e
           in DrawBarChart P area e
               = sectionHead area (wide ''Top spot'' @ [0x159] @ wide ''ebi'' @ [0x10D] @ wide ''e (kWh/den)'')
                 @ concat (map (\<lambda>i. barRow P area (Max (insert 1 (kWh ` set es))) (length es) i
                                      (rtop area + 60 + 28 * int i) (es ! i))
                             [0..<length es]))"
proof -
  have "d = simulateEnergyDay P (clock w) \<or> d = simulateEnergyDay P now \<or> d = simulateFrom P rng now"
    using assms(2) by (simp add: WM_CREATE_def)
  then obtain r t where d: "d = simulateFrom P r t"
    by (auto simp: simulateEnergyDay_def)
  define cs where "cs = topConsumers d"
  have l: "length cs = 6" and g: "\<forall>c \<in> set cs. 1 \<le> kWh c"
    unfolding cs_def d by (rule simulated_consumers_ge_1 [OF assms(1)])+
  have "cs \<noteq> []" using l by auto
  then have "\<exists>c \<in> set cs. 1 \<le> kWh c" using g by (cases cs) auto
  then have mx: "Max (insert 1 (kWh ` set cs)) = Max (kWh ` set cs)"
    by (intro Max_insert_below) auto
  have bm: "barMax cs = Max (kWh ` set cs)" by (simp only: barMax_Max mx)
  have cf: "\<forall>c \<in> set cs. barFill (right area - (left area + 170) - 10) (barMax cs) c
      = claimed_fill (right area - (left area + 170) - 10) cs c"
    by (simp add: barFill_def claimed_fill_def bm Let_def)
  have gen: "DrawBarChart P area x
         = sectionHead area (wide ''Top spot'' @ [0x159] @ wide ''ebi'' @ [0x10D] @ wide ''e (kWh/den)'')
           @ concat (map (\<lambda>i. barRow P area (Max (insert 1 (kWh ` set (topConsumers x))))
                 (length (topConsumers x)) i (rtop area + 60 + 28 * int i) (topConsumers x ! i))
                       [0..<length (topConsumers x)])" for x
    unfolding DrawBarChart_def Let_def barMax_Max barRows_rows by simp
  have 1: "DrawBarChart P area d
               = [FillRect area WHITE_BRUSH,
                  DrawTextW (left area + 10) (rtop area + 10)
                    (wide ''Top spot'' @ [0x159] @ wide ''ebi'' @ [0x10D] @ wide ''e (kWh/den)'') 18 True,
                  SelectPen 1 (0, 0, 0),
                  MoveToEx (left area + 10) (rtop area + 36),
                  LineTo (right area - 10) (rtop area + 36),
                  RestorePen]
                 @ concat (map (\<lambda>i. barRow P area (Max (kWh ` set cs)) 6 i (rtop area + 60 + 28 * int i) (cs ! i))
                             [0..<6])"
    unfolding gen [of d] cs_def [symmetric] mx l sectionHead_def by (rule refl)
  have 3: "barRow P area m n i y it
            = [DrawTextW (left area + 10) (y + 2) (widen (name it)) 12 False,
               Rectangle (left area + 170) y (left area + 170 + (right area - (left area + 170) - 10)) (y + 18),
               SelectBrush BLACK_BRUSH,
               FillRect \<lparr>left = left area + 170, rtop = y,
                         right = left area + 170 + double_to_int (dmul (int_to_double (right area - (left area + 170) - 10)) (ddiv (kWh it) m)),
                         bottom = y + 18\<rparr> BLACK_BRUSH,
               RestoreBrush,
               TextOutW (right area - 10 - textExtent P (format_fixed 1 (kWh it))) (y + 2) (format_fixed 1 (kWh it))]
              @ (if i < n - 1
                 then [SelectPen 1 (210, 210, 210), MoveToEx (left area + 10) (y + 26),
                       LineTo (right area - 10) (y + 26), RestorePen]
                 else [])"
    unfolding barRow_def Let_def barFill_def by (rule refl)
  have 4: "\<exists>w k. k < 10
              \<and> format_fixed 1 (kWh it) = wide ((if kWh it < 0 then ''-'' else []) @ decimal w @ ''.'' @ [digit_char k])
              \<and> \<bar>(of_nat w + of_nat k / 10) - \<bar>kWh it\<bar>\<bar> \<le> 1 / 20"
    by (rule format_fixed_1)
  show ?thesis
    unfolding Let_def cs_def [symmetric] using l g bm cf 1 3 4 gen [of e] by (intro conjI)
qed

theorem C9_bar_rows_witness:
  "sorts_by (std_sort demo_platform) kWh_greater
   \<and> length (topConsumers (g_day (WM_CREATE demo_platform demo_world))) = 6
   \<and> 1 \<le> kWh (topConsumers (g_day (WM_CREATE demo_platform demo_world)) ! 5)
   \<and> DrawBarChart demo_platform demo_area (g_day (WM_CREATE demo_platform demo_world)) ! 9
       = FillRect \<lparr>left = 180, rtop = 1200, right = 380, bottom = 1218\<rparr> BLACK_BRUSH
   \<and> barRow demo_platform demo_area 8 6 2 1256 (topConsumers six_consumers_day ! 2)
       = [DrawTextW 20 1258 (wide ''C'') 12 False,
          Rectangle 180 1256 380 1274,
          SelectBrush BLACK_BRUSH,
          FillRect \<lparr>left = 180, rtop = 1256, right = 280, bottom = 1274\<rparr> BLACK_BRUSH,
          RestoreBrush,
          TextOutW 359 1258 (wide ''4.0''),
          SelectPen 1 (210, 210, 210), MoveToEx 20 1282, LineTo 380 1282, RestorePen]
   \<and> take 10 (drop 26 (DrawBarChart demo_platform demo_area six_consumers_day))
       = barRow demo_platform demo_area 8 6 2 1256 (topConsumers six_consumers_day ! 2)"
proof -
  define d where "d = g_day (WM_CREATE demo_platform demo_world)"
  define cs where "cs = topConsumers d"
  have s: "sorts_by (std_sort demo_platform) kWh_greater"
    by (simp add: demo_platform_simps insertion_sort_sorts)
  have dd: "d = simulateFrom demo_platform (SeededRNG_new 0xC0FFEE) demo_date"
    by (simp add: d_def WM_CREATE_def simulateEnergyDay_def demo_world_def)
  have o: "d = g_day (WM_CREATE demo_platform demo_world) \<or> d = simulateEnergyDay demo_platform demo_date
      \<or> d = simulateFrom demo_platform (SeededRNG_new 0xC0FFEE) demo_date"
    by (simp add: d_def)
  note c = C9_bar_rows [where P = demo_platform and d = d and w = demo_world and now = demo_date
      and rng = "SeededRNG_new 0xC0FFEE" and area = demo_area and e = six_consumers_day,
      OF s o, unfolded Let_def, folded cs_def]
  note c0 = c [where it = "cs ! 0" and m = "Max (kWh ` set cs)" and n = 6 and i = 0 and y = 1200]
  note c2 = c [where it = "topConsumers six_consumers_day ! 2" and m = 8 and n = 6 and i = 2
      and y = 1256]
  have l: "length cs = 6" using c0 by blast
  then have "cs ! 5 \<in> set cs" "cs ! 0 \<in> set cs" by (simp_all only: nth_mem)
  then have g: "1 \<le> kWh (cs ! 5)" "1 \<le> kWh (cs ! 0)" using c0 by blast+
  have m: "Max (kWh ` set cs) = kWh (cs ! 0)"
    unfolding cs_def dd by (rule simulated_consumers_ge_1(3) [OF s])
  have f: "double_to_int (dmul (int_to_double 200) (ddiv (kWh (cs ! 0)) (Max (kWh ` set cs)))) = 200"
    using g(2) by (simp add: m ddiv_self full_bar)
  have dr: "DrawBarChart demo_platform demo_area d
      = [FillRect demo_area WHITE_BRUSH,
         DrawTextW (left demo_area + 10) (rtop demo_area + 10)
           (wide ''Top spot'' @ [0x159] @ wide ''ebi'' @ [0x10D] @ wide ''e (kWh/den)'') 18 True,
         SelectPen 1 (0, 0, 0),
         MoveToEx (left demo_area + 10) (rtop demo_area + 36),
         LineTo (right demo_area - 10) (rtop demo_area + 36),
         RestorePen]
        @ concat (map (\<lambda>i. barRow demo_platform demo_area (Max (kWh ` set cs)) 6 i
            (rtop demo_area + 60 + 28 * int i) (cs ! i)) [0..<6])"
    using c0 by blast
  have r0: "barRow demo_platform demo_area (Max (kWh ` set cs)) 6 0 1200 (cs ! 0) ! 3
      = FillRect \<lparr>left = 180, rtop = 1200, right = 380, bottom = 1218\<rparr> BLACK_BRUSH"
    using c0 f by (simp add: demo_area_def)
  have l0: "3 < length (barRow demo_platform demo_area (Max (kWh ` set cs)) 6 0 1200 (cs ! 0))"
    using c0 by simp
  have n9: "DrawBarChart demo_platform demo_area d ! 9
      = barRow demo_platform demo_area (Max (kWh ` set cs)) 6 0 1200 (cs ! 0) ! 3"
    unfolding dr using l0 by (simp add: upt_conv_Cons nth_append demo_area_def del: upt_Suc)
  have v: "double_to_int (dmul (int_to_double 200) (ddiv 4 8)) = 100"
    "format_fixed 1 4 = wide ''4.0''"
    by code_simp+
  have it: "topConsumers six_consumers_day ! 2 = \<lparr>name = ''C'', kWh = 4\<rparr>"
    by (simp add: six_consumers_day_def blank_day_def)
  have w: "widen ''C'' = wide ''C''" by code_simp
  have v': "format_fixed (Suc 0) 4 = wide ''4.0''" using v(2) by simp
  have r: "barRow demo_platform demo_area 8 6 2 1256 (topConsumers six_consumers_day ! 2)
       = [DrawTextW 20 1258 (wide ''C'') 12 False,
          Rectangle 180 1256 380 1274,
          SelectBrush BLACK_BRUSH,
          FillRect \<lparr>left = 180, rtop = 1256, right = 280, bottom = 1274\<rparr> BLACK_BRUSH,
          RestoreBrush,
          TextOutW 359 1258 (wide ''4.0''),
          SelectPen 1 (210, 210, 210), MoveToEx 20 1282, LineTo 380 1282, RestorePen]"
    using c2 by (simp add: it demo_area_def v v' w demo_platform_simps wide_def)
  have t: "take 10 (drop 26 (DrawBarChart demo_platform demo_area six_consumers_day))
       = barRow demo_platform demo_area 8 6 2 1256 (topConsumers six_consumers_day ! 2)"
    by code_simp
  show ?thesis
    unfolding d_def [symmetric] cs_def [symmetric] using s l g(1) n9 r0 r t by simp
qed

text \<open>
  C10. For the day the simulator produces (from the seed of the source, with any sine
  whose values lie in \<open>[-1, 1]\<close>): every hourly value is below 39, the base being at most
  16, the wave at most 7, the noise below 1 and a spike below 15; the daily total lies
  in \<open>[72, 936)\<close> and so is positive; and the sum of the category values, by which
  \<^verbatim>\<open>DrawPieChart\<close> divides, is positive. The averages divide by the constants 24 and 6.
  (The bound below 39 is read off the draws of the 24 passes: in double arithmetic the
  four bounds alone give only \<open>\<le> 39\<close>.)
\<close>

theorem C10_simulated_bounds:
  assumes "sine_bounded (libm_sin P)"
  shows "(\<forall>v \<in> set (hourlyKWh (simulateEnergyDay P now)). v < 39)
       \<and> hourBase h \<le> 16 \<and> hourWave (libm_sin P) h \<le> 7
       \<and> (unit01 x - 0.5) * 2 < 1 \<and> dadd 5 (dmul (unit01 x) 10) < 15
       \<and> 72 \<le> sum_kWh (hourlyKWh (simulateEnergyDay P now))
       \<and> sum_kWh (hourlyKWh (simulateEnergyDay P now)) < 936
       \<and> 0 < sum_kWh (hourlyKWh (simulateEnergyDay P now))
       \<and> 0 < sum_categories (categoryBreakdown (simulateEnergyDay P now))"
proof -
  let ?d = "simulateEnergyDay P now"
  let ?t = "sum_kWh (hourlyKWh ?d)"
  have h: "\<forall>v \<in> set (hourlyKWh ?d). v < 39"
    using hourly_bounds_C0FFEE [OF assms, of now] by fastforce
  have t: "72 \<le> ?t" "?t \<le> 864"
    using total_bounds(1) [OF assms] total_bounds_C0FFEE [OF assms]
    by (simp_all add: simulateEnergyDay_def)
  have cb: "categoryBreakdown ?d = deriveCategories ?t"
    by (simp add: simulateEnergyDay_def simulateFrom_fields)
  have "\<bar>sum_categories (deriveCategories ?t) - ?t\<bar> < 1 / 10 ^ 6"
    using t by (intro categories_sum_close) simp_all
  then have "?t - 1 < sum_categories (deriveCategories ?t)"
    unfolding abs_less_iff by simp
  then have c: "0 < sum_categories (categoryBreakdown ?d)" unfolding cb using t(1) by linarith
  obtain k where k: "0 \<le> k" "k < 2 ^ 53" "unit01 x = of_int k / 2 ^ 53"
    by (rule unit01_cases)
  have n: "(unit01 x - 0.5) * 2 < 1" using unit01_range(2) [of x] by simp
  have s: "dadd 5 (dmul (unit01 x) 10) < 15" using spike_range(2) [OF k(1,2)] by (simp only: k(3))
  show ?thesis
    using h t c n s hourBase_le [of h] hourWave_le [OF assms, of h] by simp
qed

theorem C10_simulated_bounds_witness:
  "sine_bounded (libm_sin demo_platform)
   \<and> hourlyKWh (simulateEnergyDay demo_platform demo_date) ! 18 < 39
   \<and> 72 \<le> sum_kWh (hourlyKWh (simulateEnergyDay demo_platform demo_date))
   \<and> sum_kWh (hourlyKWh (simulateEnergyDay demo_platform demo_date)) < 936"
proof -
  have s: "sine_bounded (libm_sin demo_platform)"
    by (simp add: demo_platform_simps poly_sin_bounded)
  have "length (hourlyKWh (simulateEnergyDay demo_platform demo_date)) = 24"
    by (simp add: simulateEnergyDay_def simulateFrom_fields)
  then have "hourlyKWh (simulateEnergyDay demo_platform demo_date) ! 18
      \<in> set (hourlyKWh (simulateEnergyDay demo_platform demo_date))"
    by (intro nth_mem) simp
  then show ?thesis
    using s C10_simulated_bounds [OF s, of demo_date] by blast
qed

end
